theory Spec2Isabelle
  imports Main "HOL-Library.Sublist"
begin

section \<open>Events\<close>

text \<open>
  The four classes implementing \<open>IEvent\<close> in \<open>src/app.ts\<close>. Quantities are TypeScript
  \<open>number\<close>s; the specification's data model makes them integers, and so does this model
  (see the section on numbers).
\<close>

datatype event =
    MachineSaleEvent int string
  | MachineRefillEvent int string
  | LowStockWarningEvent string
  | StockLevelOkEvent string

fun machineId :: "event \<Rightarrow> string" where
  "machineId (MachineSaleEvent sold mid) = mid"
| "machineId (MachineRefillEvent refill mid) = mid"
| "machineId (LowStockWarningEvent mid) = mid"
| "machineId (StockLevelOkEvent mid) = mid"

fun type' :: "event \<Rightarrow> string" where
  "type' (MachineSaleEvent sold mid) = ''sale''"
| "type' (MachineRefillEvent refill mid) = ''refill''"
| "type' (LowStockWarningEvent mid) = ''lowStockWarning''"
| "type' (StockLevelOkEvent mid) = ''stockLevelOk''"

text \<open>
  \<open>getSoldQuantity\<close> exists on \<open>MachineSaleEvent\<close> only and \<open>getRefillQuantity\<close> on
  \<open>MachineRefillEvent\<close> only: calling either on another event is a call of \<open>undefined\<close>,
  which raises \<open>TypeError\<close>. \<open>None\<close> stands for the missing method.
\<close>

fun getSoldQuantity :: "event \<Rightarrow> int option" where
  "getSoldQuantity (MachineSaleEvent sold mid) = Some sold"
| "getSoldQuantity _ = None"

fun getRefillQuantity :: "event \<Rightarrow> int option" where
  "getRefillQuantity (MachineRefillEvent refill mid) = Some refill"
| "getRefillQuantity _ = None"

fun instanceof_MachineSaleEvent :: "event \<Rightarrow> bool" where
  "instanceof_MachineSaleEvent (MachineSaleEvent sold mid) = True"
| "instanceof_MachineSaleEvent _ = False"

fun instanceof_MachineRefillEvent :: "event \<Rightarrow> bool" where
  "instanceof_MachineRefillEvent (MachineRefillEvent refill mid) = True"
| "instanceof_MachineRefillEvent _ = False"

section \<open>Numbers\<close>

text \<open>
  \<open>stockLevel\<close> and the quantities are \<open>number\<close>s, IEEE-754 doubles. The model holds the
  integers among them as \<open>int\<close> and gives \<open>+=\<close> and \<open>-=\<close> the arithmetic of the program:
  the exact result rounded to the nearest double, a tie going to the even significand.
  Every integer of magnitude below \<open>2 ^ 53\<close> is a double; from there on the doubles are
  \<open>binade n\<close> apart, a spacing that doubles with each further power of two. Fractions, and
  results that round to \<open>2 ^ 1024\<close> or beyond, which are \<open>Infinity\<close> in the program, are not
  in the model.
\<close>

function binade :: "int \<Rightarrow> int" where
  "binade n = (if n < 2 ^ 53 then 1 else 2 * binade (n div 2))"
  by pat_completeness auto
termination
proof (relation "measure nat")
  show "wf (measure nat)" by simp
next
  fix n :: int
  assume "\<not> n < 2 ^ 53"
  then have "0 < n" by simp
  then show "(n div 2, n) \<in> measure nat" by simp
qed

declare binade.simps [simp del]

definition round_double :: "int \<Rightarrow> int" where
  "round_double x =
     (if \<bar>x\<bar> < 2 ^ 53 then x
      else (let n = \<bar>x\<bar>; u = binade n; q = n div u; r = n mod u;
                m = (if 2 * r < u then q else if u < 2 * r then q + 1
                     else if even q then q else q + 1)
            in sgn x * (m * u)))"

definition js_add :: "int \<Rightarrow> int \<Rightarrow> int" where
  "js_add a b = round_double (a + b)"

definition js_sub :: "int \<Rightarrow> int \<Rightarrow> int" where
  "js_sub a b = round_double (a - b)"

section \<open>Machines\<close>

text \<open>
  The class \<open>Machine\<close>, with its initial values. The collection \<open>machines\<close> that all
  subscribers share is an array of distinct objects, as the program builds it, and no
  code changes the array itself: it is a list of records, and an assignment to a field of
  \<open>machines[i]\<close> is a list update.
\<close>

record machine =
  stockLevel :: int
  id' :: string
  lowStockWarningFired :: bool
  stockLevelOkFired :: bool

definition Machine :: "string \<Rightarrow> machine" where
  "Machine i = \<lparr>stockLevel = 10, id' = i, lowStockWarningFired = False, stockLevelOkFired = False\<rparr>"

text \<open>
  \<open>Array.prototype.findIndex\<close>: the index of the first element satisfying the predicate;
  \<open>None\<close> stands for the result \<open>-1\<close>.
\<close>

fun findIndex :: "('a \<Rightarrow> bool) \<Rightarrow> 'a list \<Rightarrow> nat option" where
  "findIndex P [] = None"
| "findIndex P (x # xs) =
     (if P x then Some 0 else (case findIndex P xs of None \<Rightarrow> None | Some i \<Rightarrow> Some (Suc i)))"

section \<open>Program state\<close>

text \<open>
  Subscriber objects are compared by reference (\<open>subscriber !== handler\<close>), so a handler is
  a reference, a natural number; the table \<open>objs\<close> passed to the dispatcher gives the object
  behind each reference. Besides the four subscriber classes of the source, a
  \<open>ScriptSubscriber\<close> stands for any other implementation of \<open>ISubscriber\<close> that uses the
  service's interface: its \<open>handle\<close> runs a fixed list of calls.
\<close>

datatype error = TypeError | HandlerError string

datatype cmd =
    Subscribe string nat
  | Unsubscribe string nat
  | Publish event
  | Throw error

datatype subscriber =
    MachineSaleSubscriber
  | MachineRefillSubscriber
  | LowStockWarningSubscriber
  | StockLevelOkSubscriber
  | ScriptSubscriber "cmd list"

text \<open>
  \<open>subscribers\<close> is the object \<open>{ [key: string]: ISubscriber[] }\<close>: each own property holds
  a reference to an array, and \<open>arrays\<close> is the store of those arrays, addressed by position.
  \<open>unsubscribe\<close> assigns a new array where \<open>subscribe\<close> pushes onto the existing one, so
  the identity of the arrays matters to a delivery pass that is under way.

  \<open>published\<close> and \<open>invoked\<close> are not in the source: they record each call of \<open>publish\<close>
  (with the handler that made it, \<open>None\<close> for a caller outside the handlers) and each call
  of a handler by the dispatcher, so that the claims about what is published and invoked
  can be stated.
\<close>

record state =
  machines :: "machine list"
  subscribers :: "string \<rightharpoonup> nat"
  arrays :: "nat list list"
  published :: "(nat option \<times> event) list"
  invoked :: "(nat \<times> event) list"

text \<open>
  What a call leaves: the exception it raised, if any, and the state, which keeps the
  assignments made before the exception. An \<open>outcome option\<close> is \<open>None\<close> for a call that
  does not return.
\<close>

type_synonym outcome = "error option \<times> state"

type_synonym pub = "nat option \<Rightarrow> event \<Rightarrow> state \<Rightarrow> outcome option"

section \<open>PublishSubscribeService\<close>

text \<open>
  \<open>this.subscribers\<close> is created by the literal \<open>{}\<close>, so reading a property that the
  object does not own falls back to \<open>Object.prototype\<close>: for the names below the read
  gives a function (for \<open>__proto__\<close> the prototype object), a truthy value that is no array.
\<close>

datatype property = Undefined | ArrayRef nat | Inherited

definition object_prototype_keys :: "string list" where
  "object_prototype_keys =
     [''constructor'', ''hasOwnProperty'', ''isPrototypeOf'', ''propertyIsEnumerable'',
      ''toLocaleString'', ''toString'', ''valueOf'', ''__proto__'',
      ''__defineGetter__'', ''__defineSetter__'', ''__lookupGetter__'', ''__lookupSetter__'']"

definition get_subscribers :: "state \<Rightarrow> string \<Rightarrow> property" where
  "get_subscribers st key =
     (case subscribers st key of
        Some a \<Rightarrow> ArrayRef a
      | None \<Rightarrow> if key \<in> set object_prototype_keys then Inherited else Undefined)"

definition subscribe :: "string \<Rightarrow> nat \<Rightarrow> state \<Rightarrow> outcome" where
  "subscribe type handler st =
     (let st1 = (case get_subscribers st type of
                   Undefined \<Rightarrow>
                     st\<lparr>subscribers := (subscribers st)(type \<mapsto> length (arrays st)),
                        arrays := arrays st @ [[]]\<rparr>
                 | ArrayRef a \<Rightarrow> st
                 | Inherited \<Rightarrow> st)
      in case get_subscribers st1 type of
           ArrayRef a \<Rightarrow> (None, st1\<lparr>arrays := (arrays st1)[a := arrays st1 ! a @ [handler]]\<rparr>)
         | Inherited \<Rightarrow> (Some TypeError, st1)
         | Undefined \<Rightarrow> (Some TypeError, st1))"

definition unsubscribe :: "string \<Rightarrow> nat \<Rightarrow> state \<Rightarrow> outcome" where
  "unsubscribe type handler st =
     (case get_subscribers st type of
        Undefined \<Rightarrow> (None, st)
      | ArrayRef a \<Rightarrow>
          (None, st\<lparr>subscribers := (subscribers st)(type \<mapsto> length (arrays st)),
                    arrays := arrays st @ [filter (\<lambda>subscriber. subscriber \<noteq> handler) (arrays st ! a)]\<rparr>)
      | Inherited \<Rightarrow> (Some TypeError, st))"

text \<open>
  \<open>Array.prototype.forEach\<close> on the array \<open>arr\<close>: the length is read once, before the first
  call, and gives the indices \<open>ks\<close>; each index is then read from the array as it is at
  that moment, and skipped when the array no longer has it. An exception of the callback
  ends the loop and is the loop's outcome; \<open>None\<close> is a callback that did not return.
\<close>

fun forEach :: "(nat \<Rightarrow> state \<Rightarrow> outcome option) \<Rightarrow> nat \<Rightarrow> nat list \<Rightarrow> state \<Rightarrow> outcome option" where
  "forEach callback arr [] st = Some (None, st)"
| "forEach callback arr (k # ks) st =
     (if k < length (arrays st ! arr)
      then (case callback (arrays st ! arr ! k) st of
              None \<Rightarrow> None
            | Some (Some e, st') \<Rightarrow> Some (Some e, st')
            | Some (None, st') \<Rightarrow> forEach callback arr ks st')
      else forEach callback arr ks st)"

section \<open>Subscribers\<close>

definition MachineSaleSubscriber_handle :: "pub \<Rightarrow> nat \<Rightarrow> event \<Rightarrow> state \<Rightarrow> outcome option" where
  "MachineSaleSubscriber_handle pub self event st =
     (case findIndex (\<lambda>machine. id' machine = machineId event) (machines st) of
        None \<Rightarrow> Some (None, st)
      | Some machineIndex \<Rightarrow>
          (case getSoldQuantity event of
             None \<Rightarrow> Some (Some TypeError, st)
           | Some soldQty \<Rightarrow>
               (let m = machines st ! machineIndex;
                    st1 = st\<lparr>machines := (machines st)[machineIndex := m\<lparr>stockLevel := js_sub (stockLevel m) soldQty\<rparr>]\<rparr>
                in if stockLevel (machines st1 ! machineIndex) < 3
                   then pub (Some self) (LowStockWarningEvent (id' (machines st1 ! machineIndex))) st1
                   else Some (None, st1))))"

definition MachineRefillSubscriber_handle :: "pub \<Rightarrow> nat \<Rightarrow> event \<Rightarrow> state \<Rightarrow> outcome option" where
  "MachineRefillSubscriber_handle pub self event st =
     (case findIndex (\<lambda>machine. id' machine = machineId event) (machines st) of
        None \<Rightarrow> Some (None, st)
      | Some machineIndex \<Rightarrow>
          (let previousStockLevel = stockLevel (machines st ! machineIndex)
           in case getRefillQuantity event of
                None \<Rightarrow> Some (Some TypeError, st)
              | Some refillQty \<Rightarrow>
                  (let m = machines st ! machineIndex;
                       st1 = st\<lparr>machines := (machines st)[machineIndex := m\<lparr>stockLevel := js_add (stockLevel m) refillQty\<rparr>]\<rparr>
                   in if previousStockLevel < 3 \<and> stockLevel (machines st1 ! machineIndex) \<ge> 3
                      then pub (Some self) (StockLevelOkEvent (id' (machines st1 ! machineIndex))) st1
                      else Some (None, st1))))"

definition LowStockWarningSubscriber_handle :: "pub \<Rightarrow> nat \<Rightarrow> event \<Rightarrow> state \<Rightarrow> outcome option" where
  "LowStockWarningSubscriber_handle pub self event st =
     (if instanceof_MachineSaleEvent event
      then (case findIndex (\<lambda>machine. id' machine = machineId event) (machines st) of
              None \<Rightarrow> Some (None, st)
            | Some machineIndex \<Rightarrow>
                if stockLevel (machines st ! machineIndex) < 3
                   \<and> \<not> lowStockWarningFired (machines st ! machineIndex)
                then (let m = machines st ! machineIndex;
                          st1 = st\<lparr>machines := (machines st)[machineIndex := m\<lparr>lowStockWarningFired := True\<rparr>]\<rparr>
                      in pub (Some self) (LowStockWarningEvent (id' (machines st1 ! machineIndex))) st1)
                else Some (None, st))
      else Some (None, st))"

definition StockLevelOkSubscriber_handle :: "pub \<Rightarrow> nat \<Rightarrow> event \<Rightarrow> state \<Rightarrow> outcome option" where
  "StockLevelOkSubscriber_handle pub self event st =
     (if instanceof_MachineRefillEvent event
      then (case findIndex (\<lambda>machine. id' machine = machineId event) (machines st) of
              None \<Rightarrow> Some (None, st)
            | Some machineIndex \<Rightarrow>
                if stockLevel (machines st ! machineIndex) \<ge> 3
                   \<and> \<not> stockLevelOkFired (machines st ! machineIndex)
                then (let m = machines st ! machineIndex;
                          st1 = st\<lparr>machines := (machines st)[machineIndex := m\<lparr>stockLevelOkFired := True\<rparr>]\<rparr>
                      in pub (Some self) (StockLevelOkEvent (id' (machines st1 ! machineIndex))) st1)
                else Some (None, st))
      else Some (None, st))"

text \<open>A scripted handler makes its calls in order; the first exception ends it.\<close>

fun exec_cmd :: "pub \<Rightarrow> nat option \<Rightarrow> cmd \<Rightarrow> state \<Rightarrow> outcome option" where
  "exec_cmd pub caller (Subscribe type handler) st = Some (subscribe type handler st)"
| "exec_cmd pub caller (Unsubscribe type handler) st = Some (unsubscribe type handler st)"
| "exec_cmd pub caller (Publish event) st = pub caller event st"
| "exec_cmd pub caller (Throw e) st = Some (Some e, st)"

fun run_script :: "pub \<Rightarrow> nat option \<Rightarrow> cmd list \<Rightarrow> state \<Rightarrow> outcome option" where
  "run_script pub caller [] st = Some (None, st)"
| "run_script pub caller (c # cs) st =
     (case exec_cmd pub caller c st of
        None \<Rightarrow> None
      | Some (Some e, st') \<Rightarrow> Some (Some e, st')
      | Some (None, st') \<Rightarrow> run_script pub caller cs st')"

fun handle :: "subscriber \<Rightarrow> pub \<Rightarrow> nat \<Rightarrow> event \<Rightarrow> state \<Rightarrow> outcome option" where
  "handle MachineSaleSubscriber pub self event st = MachineSaleSubscriber_handle pub self event st"
| "handle MachineRefillSubscriber pub self event st = MachineRefillSubscriber_handle pub self event st"
| "handle LowStockWarningSubscriber pub self event st = LowStockWarningSubscriber_handle pub self event st"
| "handle StockLevelOkSubscriber pub self event st = StockLevelOkSubscriber_handle pub self event st"
| "handle (ScriptSubscriber cs) pub self event st = run_script pub (Some self) cs st"

text \<open>
  The callback of \<open>publish\<close>, \<open>subscriber => subscriber.handle(event)\<close>, with the record of
  the call.
\<close>

definition invoke :: "(nat \<Rightarrow> subscriber) \<Rightarrow> pub \<Rightarrow> event \<Rightarrow> nat \<Rightarrow> state \<Rightarrow> outcome option" where
  "invoke objs pub event subscriber st =
     handle (objs subscriber) pub subscriber event (st\<lparr>invoked := invoked st @ [(subscriber, event)]\<rparr>)"

text \<open>
  \<open>publish\<close>, with the handler calls it makes and the calls of \<open>publish\<close> those make in
  turn. Handlers may publish without end (a handler that publishes the event it handles),
  so the nesting depth of \<open>publish\<close> calls is bounded by the first argument, and \<open>None\<close> is
  a call that needs a deeper nesting than that (in the program, the call stack runs out).
\<close>

primrec publish :: "(nat \<Rightarrow> subscriber) \<Rightarrow> nat \<Rightarrow> pub" where
  "publish objs 0 = (\<lambda>origin event st. None)"
| "publish objs (Suc n) = (\<lambda>origin event st.
     (let st1 = st\<lparr>published := published st @ [(origin, event)]\<rparr>
      in case get_subscribers st1 (type' event) of
           Undefined \<Rightarrow> Some (None, st1)
         | ArrayRef a \<Rightarrow> forEach (invoke objs (publish objs n) event) a [0..<length (arrays st1 ! a)] st1
         | Inherited \<Rightarrow> Some (Some TypeError, st1)))"

text \<open>
  The datatype \<open>event\<close> holds the four classes of the source, while \<open>publish\<close> accepts an
  object of any class that implements \<open>IEvent\<close>. For such an event the body of \<open>publish\<close>
  (lines 38 to 41) is this, where \<open>type\<close> is what the event's \<open>type()\<close> returns and
  \<open>callback\<close> is the delivery to one subscriber.
\<close>

definition publish_of_type :: "string \<Rightarrow> (nat \<Rightarrow> state \<Rightarrow> outcome option) \<Rightarrow> state \<Rightarrow> outcome option" where
  "publish_of_type type callback st =
     (case get_subscribers st type of
        Undefined \<Rightarrow> Some (None, st)
      | ArrayRef a \<Rightarrow> forEach callback a [0..<length (arrays st ! a)] st
      | Inherited \<Rightarrow> Some (Some TypeError, st))"

section \<open>The program\<close>

text \<open>
  A service and its machines as the constructors leave them, and the wiring of the
  program at the end of \<open>src/app.ts\<close>: three machines, one subscriber of each class,
  and the four \<open>subscribe\<close> calls with the type strings the program passes.
\<close>

definition new_state :: "machine list \<Rightarrow> state" where
  "new_state ms = \<lparr>machines = ms, subscribers = Map.empty, arrays = [], published = [], invoked = []\<rparr>"

definition saleSubscriber :: nat where "saleSubscriber = 0"
definition refillSubscriber :: nat where "refillSubscriber = 1"
definition lowStockWarningSubscriber :: nat where "lowStockWarningSubscriber = 2"
definition stockLevelOkSubscriber :: nat where "stockLevelOkSubscriber = 3"

definition program_objs :: "nat \<Rightarrow> subscriber" where
  "program_objs r =
     (if r = saleSubscriber then MachineSaleSubscriber
      else if r = refillSubscriber then MachineRefillSubscriber
      else if r = lowStockWarningSubscriber then LowStockWarningSubscriber
      else if r = stockLevelOkSubscriber then StockLevelOkSubscriber
      else ScriptSubscriber [])"

definition program_state :: state where
  "program_state =
     snd (subscribe ''stock_level_ok'' stockLevelOkSubscriber
       (snd (subscribe ''low_stock_warning'' lowStockWarningSubscriber
         (snd (subscribe ''refill'' refillSubscriber
           (snd (subscribe ''sale'' saleSubscriber
             (new_state [Machine ''001'', Machine ''002'', Machine ''003'']))))))))"

text \<open>
  A run: calls made on the service from outside the handlers, in order, until one raises.
  These are method calls on the service, \<open>pubSubService.publish(event)\<close>; the last line
  of the program passes the method unbound to \<open>forEach\<close>, which is outside what is
  modelled here.
\<close>

definition run :: "(nat \<Rightarrow> subscriber) \<Rightarrow> nat \<Rightarrow> cmd list \<Rightarrow> state \<Rightarrow> outcome option" where
  "run objs n calls st = run_script (publish objs n) None calls st"

section \<open>Notions used in the statements\<close>

text \<open>
  The handlers registered for a type string, in the order of their array: what a
  \<open>publish\<close> of that type will walk.
\<close>

definition registered :: "state \<Rightarrow> string \<Rightarrow> nat list" where
  "registered st key = (case get_subscribers st key of ArrayRef a \<Rightarrow> arrays st ! a | Undefined \<Rightarrow> [] | Inherited \<Rightarrow> [])"

text \<open>
  Every array reference held by the registry is an array of the store. \<open>subscribe\<close> and
  \<open>unsubscribe\<close> keep it so, and it holds of a new service.
\<close>

definition registry_ok :: "state \<Rightarrow> bool" where
  "registry_ok st \<longleftrightarrow> (\<forall>key a. subscribers st key = Some a \<longrightarrow> a < length (arrays st))"

text \<open>
  From \<open>st\<close> to \<open>st'\<close> the arrays that exist are only appended to: nothing is removed
  from them or overwritten in them.
\<close>

definition extends :: "state \<Rightarrow> state \<Rightarrow> bool" where
  "extends st st' \<longleftrightarrow>
     length (arrays st) \<le> length (arrays st')
     \<and> (\<forall>a<length (arrays st). prefix (arrays st ! a) (arrays st' ! a))"

definition registry_grows :: "state \<Rightarrow> state \<Rightarrow> bool" where
  "registry_grows st st' \<longleftrightarrow> (registry_ok st \<longrightarrow> registry_ok st' \<and> extends st st')"

text \<open>
  Delivery to a fixed list of handlers, in order, until one raises or fails to return.
\<close>

fun deliver :: "(nat \<Rightarrow> state \<Rightarrow> outcome option) \<Rightarrow> nat list \<Rightarrow> state \<Rightarrow> outcome option" where
  "deliver callback [] st = Some (None, st)"
| "deliver callback (h # hs) st =
     (case callback h st of
        None \<Rightarrow> None
      | Some (Some e, st') \<Rightarrow> Some (Some e, st')
      | Some (None, st') \<Rightarrow> deliver callback hs st')"

text \<open>
  \<open>publish\<close> as the specification words it: the handlers registered for the event's kind
  are read once, when \<open>publish\<close> begins, and the event is delivered to that list, whatever
  the handlers do to the registry meanwhile. The handlers themselves publish with the
  source's \<open>publish\<close>.
\<close>

definition publish_snapshot :: "(nat \<Rightarrow> subscriber) \<Rightarrow> nat \<Rightarrow> pub" where
  "publish_snapshot objs n origin event st =
     (let snapshot = registered st (type' event)
      in deliver (invoke objs (publish objs n) event) snapshot
           (st\<lparr>published := published st @ [(origin, event)]\<rparr>))"

text \<open>
  From \<open>st\<close> to \<open>st'\<close> the collection has the same machines with the same ids, and every
  latch that was set is still set.
\<close>

definition machines_kept :: "state \<Rightarrow> state \<Rightarrow> bool" where
  "machines_kept st st' \<longleftrightarrow>
     length (machines st') = length (machines st)
     \<and> (\<forall>i<length (machines st).
           id' (machines st' ! i) = id' (machines st ! i)
           \<and> (lowStockWarningFired (machines st ! i) \<longrightarrow> lowStockWarningFired (machines st' ! i))
           \<and> (stockLevelOkFired (machines st ! i) \<longrightarrow> stockLevelOkFired (machines st' ! i)))"

text \<open>
  How often the subscribers of class \<open>c\<close> have published the event \<open>ev\<close>, in a record of
  \<open>publish\<close> calls.
\<close>

definition emitted_by :: "(nat \<Rightarrow> subscriber) \<Rightarrow> subscriber \<Rightarrow> event \<Rightarrow> (nat option \<times> event) list \<Rightarrow> nat" where
  "emitted_by objs c ev log =
     length (filter (\<lambda>(origin, e). e = ev \<and> (case origin of None \<Rightarrow> False | Some h \<Rightarrow> objs h = c)) log)"

text \<open>
  The latch of the machine that the handlers find under the id \<open>mid\<close>.
\<close>

definition fired_in :: "(machine \<Rightarrow> bool) \<Rightarrow> string \<Rightarrow> machine list \<Rightarrow> bool" where
  "fired_in latch mid ms =
     (case findIndex (\<lambda>machine. id' machine = mid) ms of
        None \<Rightarrow> False
      | Some i \<Rightarrow> latch (ms ! i))"

text \<open>
  The latched subscribers have published at most once for each machine id, and only for
  ids whose latch is set.
\<close>

definition one_shot :: "(nat \<Rightarrow> subscriber) \<Rightarrow> state \<Rightarrow> bool" where
  "one_shot objs st \<longleftrightarrow>
     (\<forall>mid. emitted_by objs LowStockWarningSubscriber (LowStockWarningEvent mid) (published st)
               \<le> (if fired_in lowStockWarningFired mid (machines st) then 1 else 0)
           \<and> emitted_by objs StockLevelOkSubscriber (StockLevelOkEvent mid) (published st)
               \<le> (if fired_in stockLevelOkFired mid (machines st) then 1 else 0))"

text \<open>
  A caller of \<open>publish\<close> that is none of the latched subscribers.
\<close>

definition bystander :: "(nat \<Rightarrow> subscriber) \<Rightarrow> nat option \<Rightarrow> bool" where
  "bystander objs origin \<longleftrightarrow>
     (case origin of
        None \<Rightarrow> True
      | Some h \<Rightarrow> objs h \<noteq> LowStockWarningSubscriber \<and> objs h \<noteq> StockLevelOkSubscriber)"

text \<open>
  A relation between states that holds across every assignment the service and the
  subscribers make. Such a relation holds across \<open>publish\<close> as a whole
  (\<open>publish_keeps\<close> below).
\<close>

definition stable :: "(state \<Rightarrow> state \<Rightarrow> bool) \<Rightarrow> bool" where
  "stable R \<longleftrightarrow>
     (\<forall>st. R st st)
     \<and> (\<forall>a b c. R a b \<longrightarrow> R b c \<longrightarrow> R a c)
     \<and> (\<forall>st x. R st (st\<lparr>published := x\<rparr>))
     \<and> (\<forall>st x. R st (st\<lparr>invoked := x\<rparr>))
     \<and> (\<forall>t h st. R st (snd (subscribe t h st)))
     \<and> (\<forall>t h st. R st (snd (unsubscribe t h st)))
     \<and> (\<forall>st i v. i < length (machines st) \<longrightarrow>
           R st (st\<lparr>machines := (machines st)[i := (machines st ! i)\<lparr>stockLevel := v\<rparr>]\<rparr>))
     \<and> (\<forall>st i. i < length (machines st) \<longrightarrow>
           R st (st\<lparr>machines := (machines st)[i := (machines st ! i)\<lparr>lowStockWarningFired := True\<rparr>]\<rparr>))
     \<and> (\<forall>st i. i < length (machines st) \<longrightarrow>
           R st (st\<lparr>machines := (machines st)[i := (machines st ! i)\<lparr>stockLevelOkFired := True\<rparr>]\<rparr>))"

definition pub_keeps :: "(state \<Rightarrow> state \<Rightarrow> bool) \<Rightarrow> pub \<Rightarrow> bool" where
  "pub_keeps R pub \<longleftrightarrow> (\<forall>origin event st r st'. pub origin event st = Some (r, st') \<longrightarrow> R st st')"

definition pub_one_shot :: "(nat \<Rightarrow> subscriber) \<Rightarrow> pub \<Rightarrow> bool" where
  "pub_one_shot objs pub \<longleftrightarrow>
     (\<forall>origin event st r st'.
        pub origin event st = Some (r, st')
        \<longrightarrow> one_shot objs (st\<lparr>published := published st @ [(origin, event)]\<rparr>)
        \<longrightarrow> one_shot objs st')"

text \<open>
  Subscribers that never publish a Sale or Refill event: the four classes of the source,
  which publish notification events only, and scripts that do not publish at all.
\<close>

fun is_publish :: "cmd \<Rightarrow> bool" where
  "is_publish (Publish event) = True"
| "is_publish _ = False"

fun tame :: "subscriber \<Rightarrow> bool" where
  "tame (ScriptSubscriber cs) = (\<not> list_ex is_publish cs)"
| "tame _ = True"

fun notification :: "event \<Rightarrow> bool" where
  "notification (LowStockWarningEvent mid) = True"
| "notification (StockLevelOkEvent mid) = True"
| "notification _ = False"

section \<open>States and handlers of the examples\<close>


text \<open>
  A wiring in which the notification subscribers receive the Sale and Refill events they
  test for: \<open>LowStockWarningSubscriber\<close> is subscribed to \<open>sale\<close> and
  \<open>StockLevelOkSubscriber\<close> to \<open>refill\<close>, after the sale and refill subscribers.
  \<open>warned_state\<close> is that state after a sale of 8.
\<close>

definition notifying_state :: state where
  "notifying_state =
     snd (subscribe ''refill'' stockLevelOkSubscriber
       (snd (subscribe ''sale'' lowStockWarningSubscriber
         (snd (subscribe ''refill'' refillSubscriber
           (snd (subscribe ''sale'' saleSubscriber (new_state [Machine ''001''])))))))) "

definition warned_state :: state where
  "warned_state =
     snd (the (run program_objs (Suc (Suc 0)) [Publish (MachineSaleEvent 8 ''001'')] notifying_state))"

text \<open>
  Two handlers registered for \<open>sale\<close>, with tables that make handler 0 change the
  registry while the event is delivered, raise, or publish the event it handles.
\<close>

definition two_handlers :: state where
  "two_handlers = snd (subscribe ''sale'' 1 (snd (subscribe ''sale'' 0 (new_state [Machine ''001'']))))"

definition churn_objs :: "nat \<Rightarrow> subscriber" where
  "churn_objs r =
     (if r = 0 then ScriptSubscriber [Unsubscribe ''sale'' 1, Unsubscribe ''sale'' 0, Subscribe ''sale'' 2]
      else MachineSaleSubscriber)"

definition faulty_objs :: "nat \<Rightarrow> subscriber" where
  "faulty_objs r =
     (if r = 0 then ScriptSubscriber [Throw (HandlerError ''boom'')] else MachineSaleSubscriber)"

definition looping_objs :: "nat \<Rightarrow> subscriber" where
  "looping_objs r = ScriptSubscriber [Publish (MachineSaleEvent 1 ''001'')]"

section \<open>Properties\<close>

subsection \<open>Auxiliary facts\<close>

lemma findIndex_None: "findIndex P xs = None \<longleftrightarrow> (\<forall>x\<in>set xs. \<not> P x)"
  by (induction xs) (auto split: option.splits)

lemma findIndex_Some:
  "findIndex P xs = Some i \<Longrightarrow> i < length xs \<and> P (xs ! i) \<and> (\<forall>j<i. \<not> P (xs ! j))"
proof (induction xs arbitrary: i)
  case Nil
  then show ?case by simp
next
  case (Cons x xs)
  show ?case
  proof (cases "P x")
    case True
    with Cons.prems show ?thesis by simp
  next
    case False
    with Cons.prems obtain j where j: "findIndex P xs = Some j" "i = Suc j"
      by (auto split: option.splits)
    from Cons.IH [OF j(1)] False j(2) show ?thesis
      by (auto simp: less_Suc_eq_0_disj)
  qed
qed

lemma findIndex_map_cong: "map P xs = map Q ys \<Longrightarrow> findIndex P xs = findIndex Q ys"
proof (induction xs arbitrary: ys)
  case Nil
  then show ?case by simp
next
  case (Cons x xs)
  then obtain y ys' where ys: "ys = y # ys'" by (cases ys) auto
  with Cons.prems have "P x = Q y" "map P xs = map Q ys'" by simp_all
  with Cons.IH [of ys'] ys show ?case by simp
qed

lemma findIndex_update:
  assumes "i < length ms" and "id' m' = id' (ms ! i)"
  shows "findIndex (\<lambda>machine. id' machine = mid) (ms[i := m']) = findIndex (\<lambda>machine. id' machine = mid) ms"
proof (rule findIndex_map_cong)
  have "map (\<lambda>machine. id' machine = mid) (ms[i := m'])
          = (map (\<lambda>machine. id' machine = mid) ms)[i := (id' m' = mid)]"
    by (simp add: map_update)
  also have "\<dots> = map (\<lambda>machine. id' machine = mid) ms"
    using assms by (simp add: list_update_same_conv)
  finally show "map (\<lambda>machine. id' machine = mid) (ms[i := m']) = map (\<lambda>machine. id' machine = mid) ms" .
qed

lemma type_not_inherited: "type' event \<notin> set object_prototype_keys"
  by (cases event) (simp_all add: object_prototype_keys_def)

lemma get_subscribers_machines [simp]:
  "get_subscribers (st\<lparr>machines := x\<rparr>) key = get_subscribers st key"
  by (simp add: get_subscribers_def)

lemma get_subscribers_published [simp]:
  "get_subscribers (st\<lparr>published := x\<rparr>) key = get_subscribers st key"
  by (simp add: get_subscribers_def)

lemma get_subscribers_ArrayRef: "get_subscribers st key = ArrayRef a \<longleftrightarrow> subscribers st key = Some a"
  by (auto simp: get_subscribers_def split: option.splits)

lemma machines_subscribe [simp]: "machines (snd (subscribe t h st)) = machines st"
  by (simp add: subscribe_def Let_def split: property.splits)

lemma machines_unsubscribe [simp]: "machines (snd (unsubscribe t h st)) = machines st"
  by (simp add: unsubscribe_def split: property.splits)

lemma published_subscribe [simp]: "published (snd (subscribe t h st)) = published st"
  by (simp add: subscribe_def Let_def split: property.splits)

lemma published_unsubscribe [simp]: "published (snd (unsubscribe t h st)) = published st"
  by (simp add: unsubscribe_def split: property.splits)

lemma registered_fields [simp]:
  "registered (st\<lparr>machines := ms\<rparr>) key = registered st key"
  "registered (st\<lparr>published := p\<rparr>) key = registered st key"
  "registered (st\<lparr>invoked := v\<rparr>) key = registered st key"
  by (simp_all add: registered_def get_subscribers_def split: option.splits)




lemmas program_defs =
  program_state_def new_state_def Machine_def program_objs_def
  saleSubscriber_def refillSubscriber_def lowStockWarningSubscriber_def stockLevelOkSubscriber_def
  subscribe_def unsubscribe_def get_subscribers_def object_prototype_keys_def registered_def

lemmas handler_defs =
  MachineSaleSubscriber_handle_def MachineRefillSubscriber_handle_def
  LowStockWarningSubscriber_handle_def StockLevelOkSubscriber_handle_def invoke_def run_def
  js_add_def js_sub_def round_double_def

lemma returned: "\<not> Option.is_none x \<Longrightarrow> x = Some (fst (the x), snd (the x))"
  by (cases x) simp_all

subsection \<open>Relations kept by every call\<close>

lemma stable_refl: "stable R \<Longrightarrow> R st st"
  by (simp add: stable_def)

lemma stable_trans: "stable R \<Longrightarrow> R a b \<Longrightarrow> R b c \<Longrightarrow> R a c"
  unfolding stable_def by blast

lemma exec_cmd_keeps:
  assumes "stable R" and "pub_keeps R pub" and "exec_cmd pub caller c st = Some (r, st')"
  shows "R st st'"
proof (cases c)
  case (Subscribe t h)
  with assms(3) have "st' = snd (subscribe t h st)" by (cases "subscribe t h st") auto
  with assms(1) show ?thesis by (simp add: stable_def)
next
  case (Unsubscribe t h)
  with assms(3) have "st' = snd (unsubscribe t h st)" by (cases "unsubscribe t h st") auto
  with assms(1) show ?thesis by (simp add: stable_def)
next
  case (Publish ev)
  with assms(2,3) show ?thesis by (auto simp: pub_keeps_def)
next
  case (Throw e)
  with assms(1,3) show ?thesis by (auto simp: stable_refl)
qed

lemma run_script_keeps:
  assumes "stable R" and "pub_keeps R pub"
  shows "run_script pub caller cs st = Some (r, st') \<Longrightarrow> R st st'"
proof (induction cs arbitrary: st)
  case Nil
  with assms(1) show ?case by (auto simp: stable_refl)
next
  case (Cons c cs)
  from Cons.prems obtain r1 st1 where step: "exec_cmd pub caller c st = Some (r1, st1)"
    by (cases "exec_cmd pub caller c st") auto
  have R1: "R st st1" using exec_cmd_keeps [OF assms step] .
  show ?case
  proof (cases r1)
    case None
    with Cons.prems step have "run_script pub caller cs st1 = Some (r, st')" by simp
    from Cons.IH [OF this] R1 assms(1) show ?thesis by (blast intro: stable_trans)
  next
    case (Some e)
    with Cons.prems step have "st' = st1" by simp
    with R1 show ?thesis by simp
  qed
qed

lemma handle_keeps:
  assumes "stable R" and "pub_keeps R pub" and "handle c pub self event st = Some (r, st')"
  shows "R st st'"
proof (cases c)
  case MachineSaleSubscriber
  show ?thesis
  proof (cases "findIndex (\<lambda>machine. id' machine = machineId event) (machines st)")
    case None
    with assms(1,3) MachineSaleSubscriber show ?thesis
      by (auto simp: MachineSaleSubscriber_handle_def stable_refl)
  next
    case (Some i)
    then have i: "i < length (machines st)" by (simp add: findIndex_Some)
    show ?thesis
    proof (cases "getSoldQuantity event")
      case None
      with assms(1,3) MachineSaleSubscriber Some show ?thesis
        by (auto simp: MachineSaleSubscriber_handle_def stable_refl)
    next
      case (Some q)
      define st1 where "st1 = st\<lparr>machines := (machines st)[i := (machines st ! i)\<lparr>stockLevel := js_sub (stockLevel (machines st ! i)) q\<rparr>]\<rparr>"
      have R1: "R st st1" using assms(1) i unfolding st1_def stable_def by blast
      from assms(3) MachineSaleSubscriber \<open>findIndex _ _ = Some i\<close> Some
      have "st' = st1 \<or> (\<exists>origin ev. pub origin ev st1 = Some (r, st'))"
        by (auto simp: MachineSaleSubscriber_handle_def Let_def st1_def split: if_splits)
      with R1 assms(1,2) show ?thesis
        unfolding pub_keeps_def by (blast intro: stable_trans)
    qed
  qed
next
  case MachineRefillSubscriber
  show ?thesis
  proof (cases "findIndex (\<lambda>machine. id' machine = machineId event) (machines st)")
    case None
    with assms(1,3) MachineRefillSubscriber show ?thesis
      by (auto simp: MachineRefillSubscriber_handle_def stable_refl)
  next
    case (Some i)
    then have i: "i < length (machines st)" by (simp add: findIndex_Some)
    show ?thesis
    proof (cases "getRefillQuantity event")
      case None
      with assms(1,3) MachineRefillSubscriber Some show ?thesis
        by (auto simp: MachineRefillSubscriber_handle_def stable_refl)
    next
      case (Some q)
      define st1 where "st1 = st\<lparr>machines := (machines st)[i := (machines st ! i)\<lparr>stockLevel := js_add (stockLevel (machines st ! i)) q\<rparr>]\<rparr>"
      have R1: "R st st1" using assms(1) i unfolding st1_def stable_def by blast
      from assms(3) MachineRefillSubscriber \<open>findIndex _ _ = Some i\<close> Some
      have "st' = st1 \<or> (\<exists>origin ev. pub origin ev st1 = Some (r, st'))"
        by (auto simp: MachineRefillSubscriber_handle_def Let_def st1_def split: if_splits)
      with R1 assms(1,2) show ?thesis
        unfolding pub_keeps_def by (blast intro: stable_trans)
    qed
  qed
next
  case LowStockWarningSubscriber
  show ?thesis
  proof (cases "findIndex (\<lambda>machine. id' machine = machineId event) (machines st)")
    case None
    with assms(1,3) LowStockWarningSubscriber show ?thesis
      by (auto simp: LowStockWarningSubscriber_handle_def stable_refl split: if_splits)
  next
    case (Some i)
    then have i: "i < length (machines st)" by (simp add: findIndex_Some)
    define st1 where "st1 = st\<lparr>machines := (machines st)[i := (machines st ! i)\<lparr>lowStockWarningFired := True\<rparr>]\<rparr>"
    have R1: "R st st1" using assms(1) i unfolding st1_def stable_def by blast
    from assms(3) LowStockWarningSubscriber Some
    have "st' = st \<or> (\<exists>origin ev. pub origin ev st1 = Some (r, st'))"
      by (auto simp: LowStockWarningSubscriber_handle_def Let_def st1_def split: if_splits)
    with R1 assms(1,2) show ?thesis
      unfolding pub_keeps_def by (blast intro: stable_trans stable_refl)
  qed
next
  case StockLevelOkSubscriber
  show ?thesis
  proof (cases "findIndex (\<lambda>machine. id' machine = machineId event) (machines st)")
    case None
    with assms(1,3) StockLevelOkSubscriber show ?thesis
      by (auto simp: StockLevelOkSubscriber_handle_def stable_refl split: if_splits)
  next
    case (Some i)
    then have i: "i < length (machines st)" by (simp add: findIndex_Some)
    define st1 where "st1 = st\<lparr>machines := (machines st)[i := (machines st ! i)\<lparr>stockLevelOkFired := True\<rparr>]\<rparr>"
    have R1: "R st st1" using assms(1) i unfolding st1_def stable_def by blast
    from assms(3) StockLevelOkSubscriber Some
    have "st' = st \<or> (\<exists>origin ev. pub origin ev st1 = Some (r, st'))"
      by (auto simp: StockLevelOkSubscriber_handle_def Let_def st1_def split: if_splits)
    with R1 assms(1,2) show ?thesis
      unfolding pub_keeps_def by (blast intro: stable_trans stable_refl)
  qed
next
  case (ScriptSubscriber cs)
  with assms(3) have "run_script pub (Some self) cs st = Some (r, st')" by simp
  from run_script_keeps [OF assms(1,2) this] show ?thesis .
qed

lemma invoke_keeps:
  assumes "stable R" and "pub_keeps R pub" and "invoke objs pub event h st = Some (r, st')"
  shows "R st st'"
proof -
  have "R st (st\<lparr>invoked := invoked st @ [(h, event)]\<rparr>)"
    using assms(1) unfolding stable_def by blast
  moreover have "R (st\<lparr>invoked := invoked st @ [(h, event)]\<rparr>) st'"
    using handle_keeps [OF assms(1,2)] assms(3) unfolding invoke_def by blast
  ultimately show ?thesis using assms(1) by (blast intro: stable_trans)
qed

lemma forEach_keeps:
  assumes rf: "\<And>st. R st st" and tr: "\<And>a b c. R a b \<Longrightarrow> R b c \<Longrightarrow> R a c"
    and cb: "\<And>h st r st'. callback h st = Some (r, st') \<Longrightarrow> R st st'"
  shows "forEach callback a ks st = Some (r, st') \<Longrightarrow> R st st'"
proof (induction ks arbitrary: st)
  case Nil
  with rf show ?case by auto
next
  case (Cons k ks)
  show ?case
  proof (cases "k < length (arrays st ! a)")
    case False
    with Cons show ?thesis by simp
  next
    case True
    with Cons.prems obtain r1 st1 where step: "callback (arrays st ! a ! k) st = Some (r1, st1)"
      by (cases "callback (arrays st ! a ! k) st") auto
    have R1: "R st st1" using cb [OF step] .
    show ?thesis
    proof (cases r1)
      case None
      with Cons.prems step True have "forEach callback a ks st1 = Some (r, st')" by simp
      from Cons.IH [OF this] R1 show ?thesis by (blast intro: tr)
    next
      case (Some e)
      with Cons.prems step True have "st' = st1" by simp
      with R1 show ?thesis by simp
    qed
  qed
qed

lemma publish_keeps:
  assumes "stable R"
  shows "pub_keeps R (publish objs n)"
proof (induction n)
  case 0
  show ?case by (simp add: pub_keeps_def)
next
  case (Suc n)
  show ?case
    unfolding pub_keeps_def
  proof (intro allI impI)
    fix origin event st r st'
    assume run: "publish objs (Suc n) origin event st = Some (r, st')"
    define st1 where "st1 = st\<lparr>published := published st @ [(origin, event)]\<rparr>"
    have R1: "R st st1" using assms unfolding st1_def stable_def by blast
    have "st' = st1 \<or> (\<exists>a ks. forEach (invoke objs (publish objs n) event) a ks st1 = Some (r, st'))"
      using run unfolding st1_def
      by (auto simp: Let_def split: property.splits)
    moreover have "R st1 st'" if "forEach (invoke objs (publish objs n) event) a ks st1 = Some (r, st')" for a ks
    proof (rule forEach_keeps [OF _ _ _ that])
      show "R s s" for s using assms by (rule stable_refl)
      show "R a b \<Longrightarrow> R b c \<Longrightarrow> R a c" for a b c using assms by (rule stable_trans)
      show "invoke objs (publish objs n) event h s = Some (r, s') \<Longrightarrow> R s s'" for h s r s'
        using invoke_keeps [OF assms Suc.IH] by blast
    qed
    ultimately show "R st st'"
      using R1 assms by (blast intro: stable_trans)
  qed
qed

subsection \<open>With the subscribers of the source, two levels of nesting suffice\<close>

lemma forEach_returns:
  assumes "\<And>h st. \<exists>r st'. callback h st = Some (r, st')"
  shows "\<exists>r st'. forEach callback a ks st = Some (r, st')"
proof (induction ks arbitrary: st)
  case Nil
  show ?case by simp
next
  case (Cons k ks)
  show ?case
  proof (cases "k < length (arrays st ! a)")
    case False
    with Cons.IH [of st] show ?thesis by simp
  next
    case True
    from assms obtain r1 st1 where step: "callback (arrays st ! a ! k) st = Some (r1, st1)"
      by blast
    show ?thesis
    proof (cases r1)
      case None
      with step True Cons.IH [of st1] show ?thesis by simp
    next
      case (Some e)
      with step True show ?thesis by simp
    qed
  qed
qed

lemma run_script_returns:
  "\<not> list_ex is_publish cs \<Longrightarrow> \<exists>r st'. run_script pub caller cs st = Some (r, st')"
proof (induction cs arbitrary: st)
  case Nil
  show ?case by simp
next
  case (Cons c cs)
  from Cons.prems have c: "\<not> is_publish c" and cs: "\<not> list_ex is_publish cs" by simp_all
  from c obtain r1 st1 where step: "exec_cmd pub caller c st = Some (r1, st1)"
    by (cases c) (auto intro: prod.exhaust)
  show ?case
  proof (cases r1)
    case None
    with step Cons.IH [OF cs, of st1] show ?thesis by simp
  next
    case (Some e)
    with step show ?thesis by simp
  qed
qed

lemma handle_returns:
  assumes "tame c"
    and "notification event \<or> (\<forall>origin ev s. notification ev \<longrightarrow> (\<exists>r s'. pub origin ev s = Some (r, s')))"
  shows "\<exists>r st'. handle c pub self event st = Some (r, st')"
proof (cases c)
  case MachineSaleSubscriber
  from assms(2) show ?thesis
    unfolding MachineSaleSubscriber
    by (cases event)
      (auto simp: MachineSaleSubscriber_handle_def Let_def split: option.splits)
next
  case MachineRefillSubscriber
  from assms(2) show ?thesis
    unfolding MachineRefillSubscriber
    by (cases event)
      (auto simp: MachineRefillSubscriber_handle_def Let_def split: option.splits)
next
  case LowStockWarningSubscriber
  from assms(2) show ?thesis
    unfolding LowStockWarningSubscriber
    by (cases event)
      (auto simp: LowStockWarningSubscriber_handle_def Let_def split: option.splits)
next
  case StockLevelOkSubscriber
  from assms(2) show ?thesis
    unfolding StockLevelOkSubscriber
    by (cases event)
      (auto simp: StockLevelOkSubscriber_handle_def Let_def split: option.splits)
next
  case (ScriptSubscriber cs)
  with assms(1) run_script_returns [of cs pub "Some self" st] show ?thesis by simp
qed

lemma publish_step_returns:
  assumes "\<forall>h. tame (objs h)"
    and "notification event \<or> (\<forall>origin ev s. notification ev \<longrightarrow> (\<exists>r s'. publish objs n origin ev s = Some (r, s')))"
  shows "\<exists>r st'. publish objs (Suc n) origin event st = Some (r, st')"
proof -
  have cb: "\<exists>r s'. invoke objs (publish objs n) event h s = Some (r, s')" for h s
    unfolding invoke_def using handle_returns [OF _ assms(2)] assms(1) by blast
  show ?thesis
    using forEach_returns [of "invoke objs (publish objs n) event", OF cb]
    by (cases "get_subscribers st (type' event)") (simp_all add: Let_def)
qed

lemma publish_returns:
  assumes "\<forall>h. tame (objs h)"
  shows "\<exists>r st'. publish objs (Suc (Suc n)) origin event st = Some (r, st')"
proof (rule publish_step_returns [OF assms])
  have "\<exists>r s'. publish objs (Suc n) origin ev s = Some (r, s')" if "notification ev" for origin ev s
    using publish_step_returns [OF assms, of ev n origin s] that by blast
  then show "notification event \<or> (\<forall>origin ev s. notification ev \<longrightarrow> (\<exists>r s'. publish objs (Suc n) origin ev s = Some (r, s')))"
    by blast
qed

lemma run_returns:
  assumes "\<forall>h. tame (objs h)"
  shows "\<exists>r st'. run objs (Suc (Suc n)) calls st = Some (r, st')"
  unfolding run_def
proof (induction calls arbitrary: st)
  case Nil
  show ?case by simp
next
  case (Cons c cs)
  have "\<exists>r1 st1. exec_cmd (publish objs (Suc (Suc n))) None c st = Some (r1, st1)"
    using publish_returns [OF assms] by (cases c) (auto intro: prod.exhaust)
  then obtain r1 st1 where step: "exec_cmd (publish objs (Suc (Suc n))) None c st = Some (r1, st1)"
    by blast
  show ?case
  proof (cases r1)
    case None
    with step Cons.IH [of st1] show ?thesis by simp
  next
    case (Some e)
    with step show ?thesis by simp
  qed
qed

lemma tame_program_objs: "tame (program_objs h)"
  by (simp add: program_objs_def)

subsection \<open>The dispatcher\<close>

lemma extends_refl: "extends st st"
  by (simp add: extends_def)

lemma extends_trans: "extends a b \<Longrightarrow> extends b c \<Longrightarrow> extends a c"
  unfolding extends_def by (meson order_trans prefix_order.trans less_le_trans)

lemma subscribe_grows: "registry_grows st (snd (subscribe t h st))"
proof (cases "get_subscribers st t")
  case Undefined
  then have "subscribers st t = None"
    by (auto simp: get_subscribers_def split: option.splits)
  then show ?thesis
    unfolding registry_grows_def
    by (auto simp: subscribe_def get_subscribers_def registry_ok_def extends_def nth_append
        less_Suc_eq split: if_splits)
next
  case (ArrayRef a)
  then have "subscribers st t = Some a" by (simp add: get_subscribers_ArrayRef)
  then show ?thesis
    unfolding registry_grows_def
    by (auto simp: subscribe_def get_subscribers_def registry_ok_def extends_def nth_list_update)
next
  case Inherited
  then show ?thesis
    unfolding registry_grows_def by (simp add: subscribe_def extends_refl)
qed

lemma unsubscribe_grows: "registry_grows st (snd (unsubscribe t h st))"
  unfolding registry_grows_def
  by (cases "get_subscribers st t")
    (auto simp: unsubscribe_def registry_ok_def extends_def nth_append less_Suc_eq)

lemma stable_registry_grows: "stable registry_grows"
  unfolding stable_def
proof (intro conjI allI impI)
  fix a b c assume "registry_grows a b" "registry_grows b c"
  then show "registry_grows a c"
    unfolding registry_grows_def by (blast intro: extends_trans)
qed (simp_all add: subscribe_grows unsubscribe_grows,
     simp_all add: registry_grows_def registry_ok_def extends_def)

lemma forEach_deliver:
  assumes cb: "\<And>h st r st'. callback h st = Some (r, st') \<Longrightarrow> registry_grows st st'"
  shows "registry_ok st \<Longrightarrow> a < length (arrays st) \<Longrightarrow> \<forall>k\<in>set ks. k < length (arrays st ! a)
         \<Longrightarrow> forEach callback a ks st = deliver callback (map (\<lambda>k. arrays st ! a ! k) ks) st"
proof (induction ks arbitrary: st)
  case Nil
  show ?case by simp
next
  case (Cons k ks)
  from Cons.prems have k: "k < length (arrays st ! a)" by simp
  show ?case
  proof (cases "callback (arrays st ! a ! k) st")
    case None
    with k show ?thesis by simp
  next
    case (Some res)
    obtain r st1 where res: "res = (r, st1)" by (cases res)
    show ?thesis
    proof (cases r)
      case (Some e)
      with \<open>callback _ _ = Some res\<close> res k show ?thesis by simp
    next
      case None
      from cb Some res Cons.prems(1) have ok1: "registry_ok st1" and ext: "extends st st1"
        unfolding registry_grows_def by blast+
      from ext Cons.prems(2) have a1: "a < length (arrays st1)"
        and pre: "prefix (arrays st ! a) (arrays st1 ! a)"
        unfolding extends_def by auto
      from pre obtain zs where zs: "arrays st1 ! a = arrays st ! a @ zs"
        by (auto simp: prefix_def)
      from Cons.prems(3) zs have ks1: "\<forall>k\<in>set ks. k < length (arrays st1 ! a)" by auto
      from Cons.prems(3) zs
      have same: "map (\<lambda>k. arrays st1 ! a ! k) ks = map (\<lambda>k. arrays st ! a ! k) ks"
        by (auto simp: nth_append)
      from Cons.IH [OF ok1 a1 ks1] same Some res None k show ?thesis by simp
    qed
  qed
qed

lemma publish_eq_deliver:
  assumes "registry_ok st"
  shows "publish objs (Suc n) origin event st = publish_snapshot objs n origin event st"
proof (cases "get_subscribers st (type' event)")
  case Undefined
  then show ?thesis by (simp add: publish_snapshot_def registered_def)
next
  case Inherited
  with type_not_inherited [of event] show ?thesis
    by (simp add: get_subscribers_def split: option.splits if_splits)
next
  case (ArrayRef a)
  define st1 where "st1 = st\<lparr>published := published st @ [(origin, event)]\<rparr>"
  from ArrayRef assms have a: "a < length (arrays st1)"
    by (auto simp: get_subscribers_ArrayRef registry_ok_def st1_def)
  from assms have ok1: "registry_ok st1" by (simp add: registry_ok_def st1_def)
  have cb: "\<And>h s r s'. invoke objs (publish objs n) event h s = Some (r, s') \<Longrightarrow> registry_grows s s'"
    using invoke_keeps [OF stable_registry_grows publish_keeps [OF stable_registry_grows]] by blast
  have "forEach (invoke objs (publish objs n) event) a [0..<length (arrays st1 ! a)] st1
          = deliver (invoke objs (publish objs n) event)
              (map (\<lambda>k. arrays st1 ! a ! k) [0..<length (arrays st1 ! a)]) st1"
  proof (rule forEach_deliver [OF cb ok1 a])
    show "\<forall>k\<in>set [0..<length (arrays st1 ! a)]. k < length (arrays st1 ! a)" by auto
  qed
  also have "map (\<lambda>k. arrays st1 ! a ! k) [0..<length (arrays st1 ! a)] = arrays st1 ! a"
    by (simp add: map_nth)
  finally show ?thesis
    using ArrayRef by (simp add: publish_snapshot_def registered_def st1_def Let_def)
qed

lemma registered_subscribe:
  assumes "key \<notin> set object_prototype_keys" and "registry_ok st"
  shows "fst (subscribe key h st) = None"
    and "registered (snd (subscribe key h st)) key = registered st key @ [h]"
  using assms
  by (auto simp: subscribe_def registered_def get_subscribers_def registry_ok_def Let_def
      nth_append nth_list_update split: option.splits)

lemma registered_unsubscribe:
  assumes "key \<notin> set object_prototype_keys" and "registry_ok st"
  shows "fst (unsubscribe key h st) = None"
    and "registered (snd (unsubscribe key h st)) key = filter (\<lambda>s. s \<noteq> h) (registered st key)"
    and "k \<noteq> key \<Longrightarrow> registered (snd (unsubscribe key h st)) k = registered st k"
  using assms
  by (auto simp: unsubscribe_def registered_def get_subscribers_def registry_ok_def
      nth_append split: option.splits)

text \<open>
  Claim C5. \<open>publish\<close>, which walks the live array with \<open>forEach\<close>, does what
  \<open>publish_snapshot\<close> does: it calls the handlers that were registered for the event's kind
  when \<open>publish\<close> began, each once per registration and in the order of the array, whatever
  those handlers subscribe or unsubscribe in the meantime. That order is the order of
  registration, since \<open>subscribe\<close> appends.
\<close>

theorem publish_delivers_snapshot:
  assumes "registry_ok st"
  shows "publish objs (Suc n) origin event st = publish_snapshot objs n origin event st
         \<and> (key \<notin> set object_prototype_keys \<longrightarrow>
              registered (snd (subscribe key h st)) key = registered st key @ [h])"
  using publish_eq_deliver [OF assms] registered_subscribe(2) [OF _ assms] by simp

text \<open>
  Handler 0 unsubscribes handler 1 and itself and subscribes handler 2 while a Sale event
  is delivered to the handlers 0 and 1: handler 1 is still called in this pass, handler 2
  is not, and afterwards handler 2 alone is registered.
\<close>

theorem publish_delivers_snapshot_witness:
  "registry_ok two_handlers
   \<and> registered two_handlers ''sale'' = [0, 1]
   \<and> invoked (snd (the (publish churn_objs (Suc (Suc 0)) None (MachineSaleEvent 1 ''001'') two_handlers)))
       = [(0, MachineSaleEvent 1 ''001''), (1, MachineSaleEvent 1 ''001'')]
   \<and> registered (snd (the (publish churn_objs (Suc (Suc 0)) None (MachineSaleEvent 1 ''001'') two_handlers))) ''sale''
       = [2]
   \<and> registered (snd (subscribe ''sale'' 2 two_handlers)) ''sale'' = [0, 1, 2]"
proof -
  have ok: "registry_ok two_handlers"
    by (simp add: registry_ok_def two_handlers_def program_defs)
  have reg: "registered two_handlers ''sale'' = [0, 1]"
    by (simp add: two_handlers_def program_defs)
  have key: "''sale'' \<notin> set object_prototype_keys"
    by (simp add: object_prototype_keys_def)
  note inst = publish_delivers_snapshot [OF ok, of churn_objs "Suc 0" None "MachineSaleEvent 1 ''001''" "''sale''" 2]
  have eq: "publish churn_objs (Suc (Suc 0)) None (MachineSaleEvent 1 ''001'') two_handlers
              = publish_snapshot churn_objs (Suc 0) None (MachineSaleEvent 1 ''001'') two_handlers"
    using inst by (rule conjunct1)
  have app: "registered (snd (subscribe ''sale'' 2 two_handlers)) ''sale'' = [0, 1, 2]"
    using inst key reg by simp
  have inv: "invoked (snd (the (publish_snapshot churn_objs (Suc 0) None (MachineSaleEvent 1 ''001'') two_handlers)))
               = [(0, MachineSaleEvent 1 ''001''), (1, MachineSaleEvent 1 ''001'')]"
    by (simp add: publish_snapshot_def churn_objs_def two_handlers_def program_defs handler_defs)
  have after: "registered (snd (the (publish_snapshot churn_objs (Suc 0) None (MachineSaleEvent 1 ''001'') two_handlers))) ''sale''
               = [2]"
    by (simp add: publish_snapshot_def churn_objs_def two_handlers_def program_defs handler_defs)
  show ?thesis
    unfolding eq using ok reg app inv after by (intro conjI)
qed

text \<open>
  Claim C6 fails on the code for the type strings that name a property of
  \<open>Object.prototype\<close>: no handler can be registered under them, and \<open>unsubscribe\<close> raises
  \<open>TypeError\<close> (\<open>subscribers.filter\<close> is not a function) where the claim has a no-op. For
  every other type string \<open>unsubscribe\<close> does what the claim says
  (\<open>registered_unsubscribe\<close>).
\<close>

theorem unsubscribe_inherited_name_raises:
  "unsubscribe ''constructor'' saleSubscriber program_state = (Some TypeError, program_state)
   \<and> unsubscribe ''toString'' saleSubscriber (new_state []) = (Some TypeError, new_state [])"
  by (simp add: program_defs)

text \<open>
  Publishing an event of one of the four classes whose kind has no registered subscriber
  (no entry for the kind, or an entry whose array is empty) returns without an exception
  at every nesting bound that allows the call at all; the machines, the registry and its
  arrays are as before, and no handler has been called: the only difference is the record
  of the \<open>publish\<close> call itself.
\<close>

lemma publish_no_subscribers:
  assumes "registered st (type' event) = []"
  shows "publish objs (Suc n) origin event st
           = Some (None, st\<lparr>published := published st @ [(origin, event)]\<rparr>)"
proof (cases "get_subscribers st (type' event)")
  case Undefined
  then show ?thesis by simp
next
  case (ArrayRef a)
  with assms have "arrays st ! a = []" by (simp add: registered_def)
  with ArrayRef show ?thesis by simp
next
  case Inherited
  with type_not_inherited [of event] show ?thesis
    by (simp add: get_subscribers_def split: option.splits if_splits)
qed

text \<open>
  The program's wiring registers nothing for \<open>lowStockWarning\<close>, and nothing is left for
  \<open>sale\<close> once the sale subscriber is unsubscribed.
\<close>

lemma publish_no_subscribers_example:
  "registered program_state (type' (LowStockWarningEvent ''001'')) = []
   \<and> publish program_objs (Suc 0) None (LowStockWarningEvent ''001'') program_state
       = Some (None, program_state\<lparr>published := [(None, LowStockWarningEvent ''001'')]\<rparr>)
   \<and> registered (snd (unsubscribe ''sale'' saleSubscriber program_state)) (type' (MachineSaleEvent 1 ''001'')) = []
   \<and> machines (snd (the (publish program_objs (Suc 0) None (MachineSaleEvent 1 ''001'')
                            (snd (unsubscribe ''sale'' saleSubscriber program_state)))))
       = [Machine ''001'', Machine ''002'', Machine ''003'']"
proof -
  have r1: "registered program_state (type' (LowStockWarningEvent ''001'')) = []"
    by (simp add: program_defs)
  have r2: "registered (snd (unsubscribe ''sale'' saleSubscriber program_state)) (type' (MachineSaleEvent 1 ''001'')) = []"
    by (simp add: program_defs)
  have p: "published program_state = []"
    by (simp add: program_defs)
  have m: "machines (snd (unsubscribe ''sale'' saleSubscriber program_state)) = [Machine ''001'', Machine ''002'', Machine ''003'']"
    by (simp add: program_defs)
  show ?thesis
    using publish_no_subscribers [OF r1, of program_objs 0 None]
      publish_no_subscribers [OF r2, of program_objs 0 None] r1 r2 p m
    by simp
qed

lemma program_wiring:
  "registry_ok program_state"
  "registered program_state ''sale'' = [saleSubscriber]"
  "registered program_state ''refill'' = [refillSubscriber]"
  "registered program_state ''lowStockWarning'' = []"
  "registered program_state ''stockLevelOk'' = []"
  by (simp_all add: registry_ok_def program_defs)

text \<open>\<open>publish\<close> is the case of the four event classes of the source.\<close>

lemma publish_publish_of_type:
  "publish objs (Suc n) origin event st
     = publish_of_type (type' event) (invoke objs (publish objs n) event)
         (st\<lparr>published := published st @ [(origin, event)]\<rparr>)"
  by (simp add: publish_of_type_def Let_def)

text \<open>
  Claim C7 fails on the code for an event whose \<open>type()\<close> names a property of
  \<open>Object.prototype\<close>, such as \<open>constructor\<close>: no subscriber is or can be registered for that
  kind, and the registry and the machines stay as they are, but the lookup gives the
  inherited member, the guard \<open>if (subscribers)\<close> passes and \<open>subscribers.forEach\<close> raises
  \<open>TypeError\<close>, where the claim has a return without an error. For the events of the four
  classes of the source the claim holds (\<open>publish_no_subscribers\<close>).
\<close>

theorem publish_inherited_type_raises:
  "registered program_state ''constructor'' = []
   \<and> publish_of_type ''constructor'' callback program_state = Some (Some TypeError, program_state)
   \<and> publish_of_type ''toString'' callback (new_state []) = Some (Some TypeError, new_state [])"
  by (simp add: publish_of_type_def program_defs)

lemma deliver_append:
  "deliver cb (xs @ ys) st =
     (case deliver cb xs st of
        None \<Rightarrow> None
      | Some (Some e, s) \<Rightarrow> Some (Some e, s)
      | Some (None, s) \<Rightarrow> deliver cb ys s)"
  by (induction xs arbitrary: st) (auto split: option.splits)

lemma deliver_throws:
  "deliver cb hs st = Some (Some e, st') \<Longrightarrow>
     \<exists>pre h post st2. hs = pre @ h # post \<and> deliver cb pre st = Some (None, st2)
                      \<and> cb h st2 = Some (Some e, st')"
proof (induction hs arbitrary: st)
  case Nil
  then show ?case by simp
next
  case (Cons x xs)
  from Cons.prems obtain r1 st1 where step: "cb x st = Some (r1, st1)"
    by (cases "cb x st") auto
  show ?case
  proof (cases r1)
    case (Some e1)
    with Cons.prems step have "cb x st = Some (Some e, st')" by simp
    then have "x # xs = [] @ x # xs \<and> deliver cb [] st = Some (None, st) \<and> cb x st = Some (Some e, st')"
      by simp
    then show ?thesis by blast
  next
    case None
    with Cons.prems step have "deliver cb xs st1 = Some (Some e, st')" by simp
    from Cons.IH [OF this] obtain pre h post st2 where
      *: "xs = pre @ h # post" "deliver cb pre st1 = Some (None, st2)" "cb h st2 = Some (Some e, st')"
      by blast
    from * step None have "x # xs = (x # pre) @ h # post \<and> deliver cb (x # pre) st = Some (None, st2)
        \<and> cb h st2 = Some (Some e, st')" by simp
    then show ?thesis by blast
  qed
qed

lemma deliver_stuck:
  "deliver cb hs st = None \<Longrightarrow>
     \<exists>pre h post st2. hs = pre @ h # post \<and> deliver cb pre st = Some (None, st2) \<and> cb h st2 = None"
proof (induction hs arbitrary: st)
  case Nil
  then show ?case by simp
next
  case (Cons x xs)
  show ?case
  proof (cases "cb x st")
    case None
    then have "x # xs = [] @ x # xs \<and> deliver cb [] st = Some (None, st) \<and> cb x st = None"
      by simp
    then show ?thesis by blast
  next
    case (Some res)
    with Cons.prems obtain st1 where step: "cb x st = Some (None, st1)"
      and rest: "deliver cb xs st1 = None"
      by (cases res; cases "fst res") auto
    from Cons.IH [OF rest] obtain pre h post st2 where
      *: "xs = pre @ h # post" "deliver cb pre st1 = Some (None, st2)" "cb h st2 = None"
      by blast
    from * step have "x # xs = (x # pre) @ h # post \<and> deliver cb (x # pre) st = Some (None, st2)
        \<and> cb h st2 = None" by simp
    then show ?thesis by blast
  qed
qed

text \<open>
  Claim C9. In a delivery pass over the registered handlers \<open>pre @ h # post\<close>: if the
  handlers of \<open>pre\<close> return and \<open>h\<close> raises \<open>e\<close> leaving the state \<open>st3\<close>, then \<open>publish\<close> raises
  \<open>e\<close> with exactly the state \<open>st3\<close>, so that no handler of \<open>post\<close> has been called.
  Conversely \<open>publish\<close> raises only what one of its handlers raised, and fails to return
  only if one of its handlers does: with handlers that return without an exception,
  \<open>publish\<close> returns without one.
\<close>

theorem handler_exception_propagates:
  assumes "registry_ok st"
  shows "(\<forall>pre h post st2 st3 e.
            registered st (type' event) = pre @ h # post
            \<and> deliver (invoke objs (publish objs n) event) pre
                 (st\<lparr>published := published st @ [(origin, event)]\<rparr>) = Some (None, st2)
            \<and> invoke objs (publish objs n) event h st2 = Some (Some e, st3)
            \<longrightarrow> publish objs (Suc n) origin event st = Some (Some e, st3))
       \<and> (\<forall>e st'. publish objs (Suc n) origin event st = Some (Some e, st') \<longrightarrow>
            (\<exists>pre h post st2.
               registered st (type' event) = pre @ h # post
               \<and> deliver (invoke objs (publish objs n) event) pre
                    (st\<lparr>published := published st @ [(origin, event)]\<rparr>) = Some (None, st2)
               \<and> invoke objs (publish objs n) event h st2 = Some (Some e, st')))
       \<and> (publish objs (Suc n) origin event st = None \<longrightarrow>
            (\<exists>pre h post st2.
               registered st (type' event) = pre @ h # post
               \<and> deliver (invoke objs (publish objs n) event) pre
                    (st\<lparr>published := published st @ [(origin, event)]\<rparr>) = Some (None, st2)
               \<and> invoke objs (publish objs n) event h st2 = None))"
proof -
  have eq: "publish objs (Suc n) origin event st
              = deliver (invoke objs (publish objs n) event) (registered st (type' event))
                  (st\<lparr>published := published st @ [(origin, event)]\<rparr>)"
    using publish_eq_deliver [OF assms] by (simp add: publish_snapshot_def)
  show ?thesis
    unfolding eq
  proof (intro conjI allI impI)
    fix pre h post st2 st3 e
    assume "registered st (type' event) = pre @ h # post
            \<and> deliver (invoke objs (publish objs n) event) pre
                 (st\<lparr>published := published st @ [(origin, event)]\<rparr>) = Some (None, st2)
            \<and> invoke objs (publish objs n) event h st2 = Some (Some e, st3)"
    then show "deliver (invoke objs (publish objs n) event) (registered st (type' event))
                 (st\<lparr>published := published st @ [(origin, event)]\<rparr>) = Some (Some e, st3)"
      by (simp add: deliver_append)
  next
    fix e st'
    assume "deliver (invoke objs (publish objs n) event) (registered st (type' event))
              (st\<lparr>published := published st @ [(origin, event)]\<rparr>) = Some (Some e, st')"
    from deliver_throws [OF this]
    show "\<exists>pre h post st2.
               registered st (type' event) = pre @ h # post
               \<and> deliver (invoke objs (publish objs n) event) pre
                    (st\<lparr>published := published st @ [(origin, event)]\<rparr>) = Some (None, st2)
               \<and> invoke objs (publish objs n) event h st2 = Some (Some e, st')" .
  next
    assume "deliver (invoke objs (publish objs n) event) (registered st (type' event))
              (st\<lparr>published := published st @ [(origin, event)]\<rparr>) = None"
    from deliver_stuck [OF this]
    show "\<exists>pre h post st2.
               registered st (type' event) = pre @ h # post
               \<and> deliver (invoke objs (publish objs n) event) pre
                    (st\<lparr>published := published st @ [(origin, event)]\<rparr>) = Some (None, st2)
               \<and> invoke objs (publish objs n) event h st2 = None" .
  qed
qed

text \<open>
  Handler 0 raises: \<open>publish\<close> raises the same exception and handler 1, registered after
  it, is not called. A handler that publishes the event it handles does not return within
  the nesting bound, and neither does \<open>publish\<close>.
\<close>

theorem handler_exception_propagates_witness:
  "registry_ok two_handlers
   \<and> publish faulty_objs (Suc (Suc 0)) None (MachineSaleEvent 1 ''001'') two_handlers
       = Some (Some (HandlerError ''boom''),
               two_handlers\<lparr>published := [(None, MachineSaleEvent 1 ''001'')],
                             invoked := [(0, MachineSaleEvent 1 ''001'')]\<rparr>)
   \<and> publish looping_objs (Suc 0) None (MachineSaleEvent 1 ''001'') two_handlers = None"
proof -
  have ok: "registry_ok two_handlers"
    by (simp add: registry_ok_def two_handlers_def program_defs)
  have reg: "registered two_handlers (type' (MachineSaleEvent 1 ''001'')) = [] @ 0 # [1]"
    by (simp add: two_handlers_def program_defs)
  have pre: "deliver (invoke faulty_objs (publish faulty_objs (Suc 0)) (MachineSaleEvent 1 ''001'')) []
               (two_handlers\<lparr>published := published two_handlers @ [(None, MachineSaleEvent 1 ''001'')]\<rparr>)
             = Some (None, two_handlers\<lparr>published := [(None, MachineSaleEvent 1 ''001'')]\<rparr>)"
    by (simp add: two_handlers_def program_defs)
  have thr: "invoke faulty_objs (publish faulty_objs (Suc 0)) (MachineSaleEvent 1 ''001'') 0
               (two_handlers\<lparr>published := [(None, MachineSaleEvent 1 ''001'')]\<rparr>)
             = Some (Some (HandlerError ''boom''),
                     two_handlers\<lparr>published := [(None, MachineSaleEvent 1 ''001'')],
                                   invoked := [(0, MachineSaleEvent 1 ''001'')]\<rparr>)"
    by (simp add: invoke_def faulty_objs_def two_handlers_def program_defs)
  have loop: "publish looping_objs (Suc 0) None (MachineSaleEvent 1 ''001'') two_handlers = None"
    by (simp add: looping_objs_def invoke_def two_handlers_def program_defs)
  from handler_exception_propagates [OF ok, of "MachineSaleEvent 1 ''001''" faulty_objs "Suc 0" None]
  have "publish faulty_objs (Suc (Suc 0)) None (MachineSaleEvent 1 ''001'') two_handlers
       = Some (Some (HandlerError ''boom''),
               two_handlers\<lparr>published := [(None, MachineSaleEvent 1 ''001'')],
                             invoked := [(0, MachineSaleEvent 1 ''001'')]\<rparr>)"
    using reg pre thr by blast
  with ok loop show ?thesis by simp
qed

subsection \<open>The sale and refill handlers\<close>

text \<open>
  Claim C8. When no machine of the collection has the event's \<open>machineId\<close>, \<open>handle\<close> of
  each of the four subscriber classes returns without an exception and leaves the whole
  state as it was: no stock level or latch changes and nothing is published. This holds
  for every event, Sale and Refill events among them, since \<open>findIndex\<close> is the first
  thing each handler does.
\<close>

theorem unknown_machine_noop:
  assumes "\<forall>m\<in>set (machines st). id' m \<noteq> machineId event"
    and "c \<in> {MachineSaleSubscriber, MachineRefillSubscriber, LowStockWarningSubscriber, StockLevelOkSubscriber}"
  shows "handle c pub self event st = Some (None, st)"
proof -
  from assms(1) have "findIndex (\<lambda>machine. id' machine = machineId event) (machines st) = None"
    by (simp add: findIndex_None)
  with assms(2) show ?thesis
    by (auto simp: MachineSaleSubscriber_handle_def MachineRefillSubscriber_handle_def
        LowStockWarningSubscriber_handle_def StockLevelOkSubscriber_handle_def)
qed

text \<open>
  Events for machine 999 in the program's state, where the machines are 001, 002, 003.
\<close>

theorem unknown_machine_noop_witness:
  "map id' (machines program_state) = [''001'', ''002'', ''003'']
   \<and> handle MachineSaleSubscriber (publish program_objs (Suc 0)) saleSubscriber
        (MachineSaleEvent 1 ''999'') program_state = Some (None, program_state)
   \<and> handle MachineRefillSubscriber (publish program_objs (Suc 0)) refillSubscriber
        (MachineRefillEvent 3 ''999'') program_state = Some (None, program_state)"
proof -
  have h1: "\<forall>m\<in>set (machines program_state). id' m \<noteq> machineId (MachineSaleEvent 1 ''999'')"
    by (simp add: program_defs)
  have h2: "\<forall>m\<in>set (machines program_state). id' m \<noteq> machineId (MachineRefillEvent 3 ''999'')"
    by (simp add: program_defs)
  show ?thesis
    using unknown_machine_noop [OF h1, of MachineSaleSubscriber "publish program_objs (Suc 0)" saleSubscriber]
      unknown_machine_noop [OF h2, of MachineRefillSubscriber "publish program_objs (Suc 0)" refillSubscriber]
    by (simp add: program_defs)
qed

lemma refill_step:
  assumes "registry_ok st"
    and "registered st ''refill'' = [h]" and "objs h = MachineRefillSubscriber"
    and "registered st ''stockLevelOk'' = []"
    and "findIndex (\<lambda>machine. id' machine = mid) (machines st) = Some i"
  shows "publish objs (Suc (Suc n)) origin (MachineRefillEvent q mid) st =
           Some (None, st\<lparr>machines := (machines st)[i := (machines st ! i)\<lparr>stockLevel := js_add (stockLevel (machines st ! i)) q\<rparr>],
                          published := published st @ (origin, MachineRefillEvent q mid)
                             # (if stockLevel (machines st ! i) < 3 \<and> 3 \<le> js_add (stockLevel (machines st ! i)) q
                                then [(Some h, StockLevelOkEvent mid)] else []),
                          invoked := invoked st @ [(h, MachineRefillEvent q mid)]\<rparr>)"
proof -
  from findIndex_Some [OF assms(5)] have i: "i < length (machines st)" "id' (machines st ! i) = mid"
    by simp_all
  have nested: "publish objs (Suc n) (Some h) (StockLevelOkEvent mid) s
                  = Some (None, s\<lparr>published := published s @ [(Some h, StockLevelOkEvent mid)]\<rparr>)"
    if "registered s ''stockLevelOk'' = []" for s
    using publish_no_subscribers [of s "StockLevelOkEvent mid" objs n "Some h"] that by simp
  show ?thesis
    unfolding publish_eq_deliver [OF assms(1)]
    using assms(2-5) i
    by (simp add: publish_snapshot_def invoke_def MachineRefillSubscriber_handle_def Let_def nested
        del: publish.simps)
qed




lemma sale_step:
  assumes "registry_ok st"
    and "registered st ''sale'' = [h]" and "objs h = MachineSaleSubscriber"
    and "registered st ''lowStockWarning'' = []"
    and "findIndex (\<lambda>machine. id' machine = mid) (machines st) = Some i"
  shows "publish objs (Suc (Suc n)) origin (MachineSaleEvent q mid) st =
           Some (None, st\<lparr>machines := (machines st)[i := (machines st ! i)\<lparr>stockLevel := js_sub (stockLevel (machines st ! i)) q\<rparr>],
                          published := published st @ (origin, MachineSaleEvent q mid)
                             # (if js_sub (stockLevel (machines st ! i)) q < 3
                                then [(Some h, LowStockWarningEvent mid)] else []),
                          invoked := invoked st @ [(h, MachineSaleEvent q mid)]\<rparr>)"
proof -
  from findIndex_Some [OF assms(5)] have i: "i < length (machines st)" "id' (machines st ! i) = mid"
    by simp_all
  have nested: "publish objs (Suc n) (Some h) (LowStockWarningEvent mid) s
                  = Some (None, s\<lparr>published := published s @ [(Some h, LowStockWarningEvent mid)]\<rparr>)"
    if "registered s ''lowStockWarning'' = []" for s
    using publish_no_subscribers [of s "LowStockWarningEvent mid" objs n "Some h"] that by simp
  show ?thesis
    unfolding publish_eq_deliver [OF assms(1)]
    using assms(2-5) i
    by (simp add: publish_snapshot_def invoke_def MachineSaleSubscriber_handle_def Let_def nested
        del: publish.simps)
qed

text \<open>
  Claim C1 fails on the code. In the program's own wiring, a sale of 8 and then a sale of
  1 on machine 001 take the stock level from 10 to 2 and then to 1: the stock level is
  below 3 from the first sale on and no refill intervenes, and \<open>MachineSaleSubscriber\<close>
  publishes a \<open>LowStockWarningEvent\<close> at each of the two sales.
\<close>

theorem sale_warns_repeatedly:
  "map_option (published \<circ> snd)
     (run program_objs (Suc (Suc 0))
        [Publish (MachineSaleEvent 8 ''001''), Publish (MachineSaleEvent 1 ''001'')] program_state)
     = Some [(None, MachineSaleEvent 8 ''001''), (Some saleSubscriber, LowStockWarningEvent ''001''),
             (None, MachineSaleEvent 1 ''001''), (Some saleSubscriber, LowStockWarningEvent ''001'')]
   \<and> map_option (map stockLevel \<circ> machines \<circ> snd)
     (run program_objs (Suc (Suc 0))
        [Publish (MachineSaleEvent 8 ''001''), Publish (MachineSaleEvent 1 ''001'')] program_state)
     = Some [1, 10, 10]"
  by (simp add: program_defs handler_defs upt_rec)

text \<open>
  Claim C2 fails on the code. With \<open>LowStockWarningSubscriber\<close> subscribed to \<open>sale\<close>
  after \<open>MachineSaleSubscriber\<close>, the sale of 8 leaves the stock level at 2 with the
  low-stock latch set, and two warnings published; the sale of 1 that follows, with the
  stock level below 3 and the latch set, publishes a warning again, from
  \<open>MachineSaleSubscriber\<close>, which neither reads nor sets the latch: in the program's own
  wiring the sale of 8 publishes a warning and leaves the latch idle.
\<close>

theorem sale_handler_ignores_latch:
  "map_option (machines \<circ> snd)
     (run program_objs (Suc (Suc 0)) [Publish (MachineSaleEvent 8 ''001'')] notifying_state)
     = Some [\<lparr>stockLevel = 2, id' = ''001'', lowStockWarningFired = True, stockLevelOkFired = False\<rparr>]
   \<and> map_option (published \<circ> snd)
     (run program_objs (Suc (Suc 0))
        [Publish (MachineSaleEvent 8 ''001''), Publish (MachineSaleEvent 1 ''001'')] notifying_state)
     = Some [(None, MachineSaleEvent 8 ''001''),
             (Some saleSubscriber, LowStockWarningEvent ''001''),
             (Some lowStockWarningSubscriber, LowStockWarningEvent ''001''),
             (None, MachineSaleEvent 1 ''001''),
             (Some saleSubscriber, LowStockWarningEvent ''001'')]
   \<and> map_option (machines \<circ> snd)
     (run program_objs (Suc (Suc 0)) [Publish (MachineSaleEvent 8 ''001'')] program_state)
     = Some [\<lparr>stockLevel = 2, id' = ''001'', lowStockWarningFired = False, stockLevelOkFired = False\<rparr>,
             Machine ''002'', Machine ''003'']"
  by (simp add: notifying_state_def program_defs handler_defs upt_rec)

subsection \<open>The latches\<close>

lemma stable_machines_kept: "stable machines_kept"
  unfolding stable_def
proof (intro conjI allI impI)
  fix a b c assume "machines_kept a b" "machines_kept b c"
  then show "machines_kept a c"
    unfolding machines_kept_def by auto
qed (auto simp: machines_kept_def nth_list_update)

text \<open>
  Claim C4 as stated fails: a sale of 8 sets the low-stock latch at stock level 2, the
  refill of 5 that follows carries the stock level to 7 and leaves that latch set, and
  the sale of 6 after it carries the stock level down to 1 and leaves the stock-ok latch
  set.
\<close>

theorem crossing_clears_latch_counterexample:
  "map_option (machines \<circ> snd)
     (run program_objs (Suc (Suc 0)) [Publish (MachineSaleEvent 8 ''001'')] notifying_state)
     = Some [\<lparr>stockLevel = 2, id' = ''001'', lowStockWarningFired = True, stockLevelOkFired = False\<rparr>]
   \<and> map_option (machines \<circ> snd)
     (run program_objs (Suc (Suc 0))
        [Publish (MachineSaleEvent 8 ''001''), Publish (MachineRefillEvent 5 ''001'')] notifying_state)
     = Some [\<lparr>stockLevel = 7, id' = ''001'', lowStockWarningFired = True, stockLevelOkFired = True\<rparr>]
   \<and> map_option (machines \<circ> snd)
     (run program_objs (Suc (Suc 0))
        [Publish (MachineSaleEvent 8 ''001''), Publish (MachineRefillEvent 5 ''001''),
         Publish (MachineSaleEvent 6 ''001'')] notifying_state)
     = Some [\<lparr>stockLevel = 1, id' = ''001'', lowStockWarningFired = True, stockLevelOkFired = True\<rparr>]"
  by (simp add: notifying_state_def program_defs handler_defs upt_rec)

text \<open>
  Claim C4, amended. A \<open>publish\<close> call, with all the handler calls it causes, that carries
  the stock level of a machine across the threshold 3 in either direction does not clear a
  latch of that machine: a latch that was set before the call is set after it.
\<close>

theorem crossing_keeps_latches:
  assumes "publish objs n origin event st = Some (r, st')"
    and "i < length (machines st)"
    and "(stockLevel (machines st ! i) < 3) \<noteq> (stockLevel (machines st' ! i) < 3)"
  shows "(lowStockWarningFired (machines st ! i) \<longrightarrow> lowStockWarningFired (machines st' ! i))
         \<and> (stockLevelOkFired (machines st ! i) \<longrightarrow> stockLevelOkFired (machines st' ! i))"
proof -
  have "machines_kept st st'"
    using publish_keeps [OF stable_machines_kept, of objs n] assms(1)
    unfolding pub_keeps_def by blast
  with assms(2) show ?thesis
    unfolding machines_kept_def by blast
qed

text \<open>
  The refill of 5 at stock level 2 with the low-stock latch set.
\<close>

theorem crossing_keeps_latches_witness:
  "lowStockWarningFired (machines warned_state ! 0)
   \<and> stockLevel (machines warned_state ! 0) = 2
   \<and> stockLevel (machines (snd (the (publish program_objs (Suc (Suc 0)) None
                                        (MachineRefillEvent 5 ''001'') warned_state))) ! 0) = 7
   \<and> lowStockWarningFired (machines (snd (the (publish program_objs (Suc (Suc 0)) None
                                        (MachineRefillEvent 5 ''001'') warned_state))) ! 0)"
proof -
  define out where "out = publish program_objs (Suc (Suc 0)) None (MachineRefillEvent 5 ''001'') warned_state"
  have ws: "machines warned_state
              = [\<lparr>stockLevel = 2, id' = ''001'', lowStockWarningFired = True, stockLevelOkFired = False\<rparr>]"
    by (simp add: warned_state_def notifying_state_def program_defs handler_defs upt_rec)
  have "\<not> Option.is_none out"
    unfolding out_def
    by (simp add: warned_state_def notifying_state_def program_defs handler_defs upt_rec)
  then have ret: "out = Some (fst (the out), snd (the out))" by (rule returned)
  have after: "stockLevel (machines (snd (the out)) ! 0) = 7"
    unfolding out_def
    by (simp add: warned_state_def notifying_state_def program_defs handler_defs upt_rec)
  have i: "0 < length (machines warned_state)" by (simp add: ws)
  have cross: "(stockLevel (machines warned_state ! 0) < 3) \<noteq> (stockLevel (machines (snd (the out)) ! 0) < 3)"
    by (simp add: ws after)
  have "lowStockWarningFired (machines warned_state ! 0) \<longrightarrow> lowStockWarningFired (machines (snd (the out)) ! 0)"
    using crossing_keeps_latches [OF ret [unfolded out_def] i cross [unfolded out_def]]
    unfolding out_def by (rule conjunct1)
  with ws after show ?thesis
    unfolding out_def by simp
qed

lemma fired_in_update:
  assumes "i < length ms" and "id' m' = id' (ms ! i)" and "latch m' = latch (ms ! i)"
  shows "fired_in latch mid (ms[i := m']) = fired_in latch mid ms"
  using assms findIndex_Some [of "\<lambda>machine. id' machine = mid" ms]
  by (auto simp: fired_in_def findIndex_update nth_list_update split: option.splits)

lemma fired_in_set:
  assumes "findIndex (\<lambda>machine. id' machine = mid) ms = Some i" and "id' m' = id' (ms ! i)"
  shows "fired_in latch mid' (ms[i := m']) = (if mid' = mid then latch m' else fired_in latch mid' ms)"
proof -
  from findIndex_Some [OF assms(1)] have i: "i < length ms" "id' (ms ! i) = mid"
    by simp_all
  show ?thesis
  proof (cases "mid' = mid")
    case True
    with assms i show ?thesis by (simp add: fired_in_def findIndex_update)
  next
    case False
    have "j \<noteq> i" if "findIndex (\<lambda>machine. id' machine = mid') ms = Some j" for j
      using findIndex_Some [OF that] i False by auto
    with False assms(2) i show ?thesis
      by (auto simp: fired_in_def findIndex_update split: option.splits)
  qed
qed

lemma emitted_by_append:
  "emitted_by objs c ev (log @ [(origin, e)])
     = emitted_by objs c ev log
       + (if e = ev \<and> (case origin of None \<Rightarrow> False | Some h \<Rightarrow> objs h = c) then 1 else 0)"
  by (simp add: emitted_by_def)

lemma one_shot_invoked [simp]: "one_shot objs (st\<lparr>invoked := x\<rparr>) = one_shot objs st"
  by (simp add: one_shot_def)

lemma one_shot_subscribe [simp]: "one_shot objs (snd (subscribe t h st)) = one_shot objs st"
  by (simp add: one_shot_def)

lemma one_shot_unsubscribe [simp]: "one_shot objs (snd (unsubscribe t h st)) = one_shot objs st"
  by (simp add: one_shot_def)

lemma one_shot_stock:
  "i < length (machines st) \<Longrightarrow>
   one_shot objs (st\<lparr>machines := (machines st)[i := (machines st ! i)\<lparr>stockLevel := v\<rparr>]\<rparr>) = one_shot objs st"
  by (simp add: one_shot_def fired_in_update)

lemma one_shot_bystander:
  assumes "one_shot objs st" and "bystander objs origin"
  shows "one_shot objs (st\<lparr>published := published st @ [(origin, ev)]\<rparr>)"
proof -
  have same: "emitted_by objs c e (published st @ [(origin, ev)]) = emitted_by objs c e (published st)"
    if "c = LowStockWarningSubscriber \<or> c = StockLevelOkSubscriber" for c e
    using assms(2) that by (auto simp: emitted_by_append bystander_def split: option.splits)
  from assms(1) show ?thesis
    by (simp add: one_shot_def same)
qed

lemma one_shot_fire_low:
  assumes "one_shot objs st"
    and "findIndex (\<lambda>machine. id' machine = mid) (machines st) = Some i"
    and "\<not> lowStockWarningFired (machines st ! i)"
    and "objs h = LowStockWarningSubscriber"
  shows "one_shot objs (st\<lparr>machines := (machines st)[i := (machines st ! i)\<lparr>lowStockWarningFired := True\<rparr>],
                           published := published st @ [(Some h, LowStockWarningEvent mid)]\<rparr>)"
proof -
  from assms(2,3) have idle: "\<not> fired_in lowStockWarningFired mid (machines st)"
    by (simp add: fired_in_def)
  from assms(1) have "emitted_by objs LowStockWarningSubscriber (LowStockWarningEvent mid) (published st)
                        \<le> (if fired_in lowStockWarningFired mid (machines st) then 1 else 0)"
    unfolding one_shot_def by blast
  with idle have zero: "emitted_by objs LowStockWarningSubscriber (LowStockWarningEvent mid) (published st) = 0"
    by simp
  from findIndex_Some [OF assms(2)] have i: "i < length (machines st)" by simp
  have ok: "fired_in stockLevelOkFired m ((machines st)[i := (machines st ! i)\<lparr>lowStockWarningFired := True\<rparr>])
              = fired_in stockLevelOkFired m (machines st)" for m
    using i by (simp add: fired_in_update)
  have low: "fired_in lowStockWarningFired m ((machines st)[i := (machines st ! i)\<lparr>lowStockWarningFired := True\<rparr>])
              = (if m = mid then True else fired_in lowStockWarningFired m (machines st))" for m
    using fired_in_set [OF assms(2), of "(machines st ! i)\<lparr>lowStockWarningFired := True\<rparr>" lowStockWarningFired m]
    by simp
  have "emitted_by objs LowStockWarningSubscriber (LowStockWarningEvent m)
            (published st @ [(Some h, LowStockWarningEvent mid)])
          \<le> (if fired_in lowStockWarningFired m
                   ((machines st)[i := (machines st ! i)\<lparr>lowStockWarningFired := True\<rparr>])
              then 1 else 0)
        \<and> emitted_by objs StockLevelOkSubscriber (StockLevelOkEvent m)
            (published st @ [(Some h, LowStockWarningEvent mid)])
          \<le> (if fired_in stockLevelOkFired m
                   ((machines st)[i := (machines st ! i)\<lparr>lowStockWarningFired := True\<rparr>])
              then 1 else 0)" for m
  proof -
    from assms(1) have m1: "emitted_by objs LowStockWarningSubscriber (LowStockWarningEvent m) (published st)
                        \<le> (if fired_in lowStockWarningFired m (machines st) then 1 else 0)"
      and m2: "emitted_by objs StockLevelOkSubscriber (StockLevelOkEvent m) (published st)
                        \<le> (if fired_in stockLevelOkFired m (machines st) then 1 else 0)"
      unfolding one_shot_def by blast+
    show ?thesis
      unfolding emitted_by_append low ok
      using m1 m2 zero assms(4) by (cases "m = mid") simp_all
  qed
  then show ?thesis
    by (simp add: one_shot_def)
qed

lemma one_shot_fire_ok:
  assumes "one_shot objs st"
    and "findIndex (\<lambda>machine. id' machine = mid) (machines st) = Some i"
    and "\<not> stockLevelOkFired (machines st ! i)"
    and "objs h = StockLevelOkSubscriber"
  shows "one_shot objs (st\<lparr>machines := (machines st)[i := (machines st ! i)\<lparr>stockLevelOkFired := True\<rparr>],
                           published := published st @ [(Some h, StockLevelOkEvent mid)]\<rparr>)"
proof -
  from assms(2,3) have idle: "\<not> fired_in stockLevelOkFired mid (machines st)"
    by (simp add: fired_in_def)
  from assms(1) have "emitted_by objs StockLevelOkSubscriber (StockLevelOkEvent mid) (published st)
                        \<le> (if fired_in stockLevelOkFired mid (machines st) then 1 else 0)"
    unfolding one_shot_def by blast
  with idle have zero: "emitted_by objs StockLevelOkSubscriber (StockLevelOkEvent mid) (published st) = 0"
    by simp
  from findIndex_Some [OF assms(2)] have i: "i < length (machines st)" by simp
  have low: "fired_in lowStockWarningFired m ((machines st)[i := (machines st ! i)\<lparr>stockLevelOkFired := True\<rparr>])
              = fired_in lowStockWarningFired m (machines st)" for m
    using i by (simp add: fired_in_update)
  have ok: "fired_in stockLevelOkFired m ((machines st)[i := (machines st ! i)\<lparr>stockLevelOkFired := True\<rparr>])
              = (if m = mid then True else fired_in stockLevelOkFired m (machines st))" for m
    using fired_in_set [OF assms(2), of "(machines st ! i)\<lparr>stockLevelOkFired := True\<rparr>" stockLevelOkFired m]
    by simp
  have "emitted_by objs LowStockWarningSubscriber (LowStockWarningEvent m)
            (published st @ [(Some h, StockLevelOkEvent mid)])
          \<le> (if fired_in lowStockWarningFired m
                   ((machines st)[i := (machines st ! i)\<lparr>stockLevelOkFired := True\<rparr>])
              then 1 else 0)
        \<and> emitted_by objs StockLevelOkSubscriber (StockLevelOkEvent m)
            (published st @ [(Some h, StockLevelOkEvent mid)])
          \<le> (if fired_in stockLevelOkFired m
                   ((machines st)[i := (machines st ! i)\<lparr>stockLevelOkFired := True\<rparr>])
              then 1 else 0)" for m
  proof -
    from assms(1) have m1: "emitted_by objs LowStockWarningSubscriber (LowStockWarningEvent m) (published st)
                        \<le> (if fired_in lowStockWarningFired m (machines st) then 1 else 0)"
      and m2: "emitted_by objs StockLevelOkSubscriber (StockLevelOkEvent m) (published st)
                        \<le> (if fired_in stockLevelOkFired m (machines st) then 1 else 0)"
      unfolding one_shot_def by blast+
    show ?thesis
      unfolding emitted_by_append low ok
      using m1 m2 zero assms(4) by (cases "m = mid") simp_all
  qed
  then show ?thesis
    by (simp add: one_shot_def)
qed

lemma run_script_one_shot:
  assumes "pub_one_shot objs pub" and "bystander objs caller"
  shows "one_shot objs st \<Longrightarrow> run_script pub caller cs st = Some (r, st') \<Longrightarrow> one_shot objs st'"
proof (induction cs arbitrary: st)
  case Nil
  then show ?case by simp
next
  case (Cons c cs)
  from Cons.prems(2) obtain r1 st1 where step: "exec_cmd pub caller c st = Some (r1, st1)"
    by (cases "exec_cmd pub caller c st") auto
  have os1: "one_shot objs st1"
  proof (cases c)
    case (Subscribe t h)
    with step have "st1 = snd (subscribe t h st)" by (cases "subscribe t h st") auto
    with Cons.prems(1) show ?thesis by simp
  next
    case (Unsubscribe t h)
    with step have "st1 = snd (unsubscribe t h st)" by (cases "unsubscribe t h st") auto
    with Cons.prems(1) show ?thesis by simp
  next
    case (Publish ev)
    with step have "pub caller ev st = Some (r1, st1)" by simp
    moreover have "one_shot objs (st\<lparr>published := published st @ [(caller, ev)]\<rparr>)"
      using one_shot_bystander [OF Cons.prems(1) assms(2)] .
    ultimately show ?thesis
      using assms(1) unfolding pub_one_shot_def by blast
  next
    case (Throw e)
    with step Cons.prems(1) show ?thesis by auto
  qed
  show ?case
  proof (cases r1)
    case None
    with Cons.prems(2) step have "run_script pub caller cs st1 = Some (r, st')" by simp
    from Cons.IH [OF os1 this] show ?thesis .
  next
    case (Some e)
    with Cons.prems(2) step have "st' = st1" by simp
    with os1 show ?thesis by simp
  qed
qed

lemma handle_one_shot:
  assumes "pub_one_shot objs pub" and "one_shot objs st"
    and "handle (objs h) pub h event st = Some (r, st')"
  shows "one_shot objs st'"
proof (cases "objs h")
  case MachineSaleSubscriber
  then have bys: "bystander objs (Some h)" by (simp add: bystander_def)
  show ?thesis
  proof (cases "findIndex (\<lambda>machine. id' machine = machineId event) (machines st)")
    case None
    with assms(2,3) MachineSaleSubscriber show ?thesis
      by (auto simp: MachineSaleSubscriber_handle_def)
  next
    case (Some i)
    then have i: "i < length (machines st)" by (simp add: findIndex_Some)
    show ?thesis
    proof (cases "getSoldQuantity event")
      case None
      with assms(2,3) MachineSaleSubscriber Some show ?thesis
        by (auto simp: MachineSaleSubscriber_handle_def)
    next
      case (Some q)
      define st1 where "st1 = st\<lparr>machines := (machines st)[i := (machines st ! i)\<lparr>stockLevel := js_sub (stockLevel (machines st ! i)) q\<rparr>]\<rparr>"
      have os1: "one_shot objs st1" using assms(2) i by (simp add: st1_def one_shot_stock)
      from assms(3) MachineSaleSubscriber \<open>findIndex _ _ = Some i\<close> Some
      have "st' = st1 \<or> (\<exists>ev. pub (Some h) ev st1 = Some (r, st'))"
        by (auto simp: MachineSaleSubscriber_handle_def Let_def st1_def split: if_splits)
      with os1 one_shot_bystander [OF os1 bys] assms(1) show ?thesis
        unfolding pub_one_shot_def by blast
    qed
  qed
next
  case MachineRefillSubscriber
  then have bys: "bystander objs (Some h)" by (simp add: bystander_def)
  show ?thesis
  proof (cases "findIndex (\<lambda>machine. id' machine = machineId event) (machines st)")
    case None
    with assms(2,3) MachineRefillSubscriber show ?thesis
      by (auto simp: MachineRefillSubscriber_handle_def)
  next
    case (Some i)
    then have i: "i < length (machines st)" by (simp add: findIndex_Some)
    show ?thesis
    proof (cases "getRefillQuantity event")
      case None
      with assms(2,3) MachineRefillSubscriber Some show ?thesis
        by (auto simp: MachineRefillSubscriber_handle_def)
    next
      case (Some q)
      define st1 where "st1 = st\<lparr>machines := (machines st)[i := (machines st ! i)\<lparr>stockLevel := js_add (stockLevel (machines st ! i)) q\<rparr>]\<rparr>"
      have os1: "one_shot objs st1" using assms(2) i by (simp add: st1_def one_shot_stock)
      from assms(3) MachineRefillSubscriber \<open>findIndex _ _ = Some i\<close> Some
      have "st' = st1 \<or> (\<exists>ev. pub (Some h) ev st1 = Some (r, st'))"
        by (auto simp: MachineRefillSubscriber_handle_def Let_def st1_def split: if_splits)
      with os1 one_shot_bystander [OF os1 bys] assms(1) show ?thesis
        unfolding pub_one_shot_def by blast
    qed
  qed
next
  case LowStockWarningSubscriber
  show ?thesis
  proof (cases "findIndex (\<lambda>machine. id' machine = machineId event) (machines st)")
    case None
    with assms(2,3) LowStockWarningSubscriber show ?thesis
      by (auto simp: LowStockWarningSubscriber_handle_def split: if_splits)
  next
    case (Some i)
    from findIndex_Some [OF Some] have i: "i < length (machines st)" "id' (machines st ! i) = machineId event"
      by simp_all
    show ?thesis
    proof (cases "instanceof_MachineSaleEvent event \<and> stockLevel (machines st ! i) < 3
                   \<and> \<not> lowStockWarningFired (machines st ! i)")
      case False
      with assms(2,3) LowStockWarningSubscriber Some show ?thesis
        by (auto simp: LowStockWarningSubscriber_handle_def split: if_splits)
    next
      case True
      define st1 where "st1 = st\<lparr>machines := (machines st)[i := (machines st ! i)\<lparr>lowStockWarningFired := True\<rparr>]\<rparr>"
      from True assms(3) LowStockWarningSubscriber Some i
      have call: "pub (Some h) (LowStockWarningEvent (machineId event)) st1 = Some (r, st')"
        by (simp add: LowStockWarningSubscriber_handle_def Let_def st1_def)
      have "one_shot objs (st1\<lparr>published := published st1 @ [(Some h, LowStockWarningEvent (machineId event))]\<rparr>)"
        using one_shot_fire_low [OF assms(2) Some _ LowStockWarningSubscriber] True
        by (simp add: st1_def)
      with call assms(1) show ?thesis
        unfolding pub_one_shot_def by blast
    qed
  qed
next
  case StockLevelOkSubscriber
  show ?thesis
  proof (cases "findIndex (\<lambda>machine. id' machine = machineId event) (machines st)")
    case None
    with assms(2,3) StockLevelOkSubscriber show ?thesis
      by (auto simp: StockLevelOkSubscriber_handle_def split: if_splits)
  next
    case (Some i)
    from findIndex_Some [OF Some] have i: "i < length (machines st)" "id' (machines st ! i) = machineId event"
      by simp_all
    show ?thesis
    proof (cases "instanceof_MachineRefillEvent event \<and> 3 \<le> stockLevel (machines st ! i)
                   \<and> \<not> stockLevelOkFired (machines st ! i)")
      case False
      with assms(2,3) StockLevelOkSubscriber Some show ?thesis
        by (auto simp: StockLevelOkSubscriber_handle_def split: if_splits)
    next
      case True
      define st1 where "st1 = st\<lparr>machines := (machines st)[i := (machines st ! i)\<lparr>stockLevelOkFired := True\<rparr>]\<rparr>"
      from True assms(3) StockLevelOkSubscriber Some i
      have call: "pub (Some h) (StockLevelOkEvent (machineId event)) st1 = Some (r, st')"
        by (simp add: StockLevelOkSubscriber_handle_def Let_def st1_def)
      have "one_shot objs (st1\<lparr>published := published st1 @ [(Some h, StockLevelOkEvent (machineId event))]\<rparr>)"
        using one_shot_fire_ok [OF assms(2) Some _ StockLevelOkSubscriber] True
        by (simp add: st1_def)
      with call assms(1) show ?thesis
        unfolding pub_one_shot_def by blast
    qed
  qed
next
  case (ScriptSubscriber cs)
  then have bys: "bystander objs (Some h)" by (simp add: bystander_def)
  from ScriptSubscriber assms(3) have "run_script pub (Some h) cs st = Some (r, st')" by simp
  from run_script_one_shot [OF assms(1) bys assms(2) this] show ?thesis .
qed

lemma publish_one_shot: "pub_one_shot objs (publish objs n)"
proof (induction n)
  case 0
  show ?case by (simp add: pub_one_shot_def)
next
  case (Suc n)
  show ?case
    unfolding pub_one_shot_def
  proof (intro allI impI)
    fix origin event st r st'
    assume run: "publish objs (Suc n) origin event st = Some (r, st')"
      and os: "one_shot objs (st\<lparr>published := published st @ [(origin, event)]\<rparr>)"
    define st1 where "st1 = st\<lparr>published := published st @ [(origin, event)]\<rparr>"
    have "st' = st1 \<or> (\<exists>a ks. forEach (invoke objs (publish objs n) event) a ks st1 = Some (r, st'))"
      using run unfolding st1_def
      by (auto simp: Let_def split: property.splits)
    moreover have "one_shot objs st1 \<longrightarrow> one_shot objs st'"
      if "forEach (invoke objs (publish objs n) event) a ks st1 = Some (r, st')" for a ks
    proof (rule forEach_keeps [where R = "\<lambda>s s'. one_shot objs s \<longrightarrow> one_shot objs s'", OF _ _ _ that])
      show "one_shot objs s \<longrightarrow> one_shot objs s" for s by simp
      show "one_shot objs a \<longrightarrow> one_shot objs b \<Longrightarrow> one_shot objs b \<longrightarrow> one_shot objs c
            \<Longrightarrow> one_shot objs a \<longrightarrow> one_shot objs c" for a b c by simp
      show "invoke objs (publish objs n) event h s = Some (r, s') \<Longrightarrow> one_shot objs s \<longrightarrow> one_shot objs s'"
        for h s r s'
        using handle_one_shot [OF Suc.IH, of "s\<lparr>invoked := invoked s @ [(h, event)]\<rparr>" h event r s']
        by (simp add: invoke_def)
    qed
    ultimately show "one_shot objs st'"
      using os unfolding st1_def by blast
  qed
qed

text \<open>
  Claim C10. Over a run of calls made on the service from outside, from a state in which
  nothing has been published yet: the machines and their ids stay as they are, a latch
  that is set is never cleared again, and for each machine id the subscribers of class
  \<open>LowStockWarningSubscriber\<close> publish at most one \<open>LowStockWarningEvent\<close> and those of
  class \<open>StockLevelOkSubscriber\<close> at most one \<open>StockLevelOkEvent\<close>, whatever the handlers
  registered and however often the stock level crosses the threshold.
\<close>

theorem latches_never_reset:
  assumes "run objs n calls st = Some (r, st')" and "published st = []"
  shows "length (machines st') = length (machines st)
         \<and> (\<forall>i<length (machines st).
               id' (machines st' ! i) = id' (machines st ! i)
               \<and> (lowStockWarningFired (machines st ! i) \<longrightarrow> lowStockWarningFired (machines st' ! i))
               \<and> (stockLevelOkFired (machines st ! i) \<longrightarrow> stockLevelOkFired (machines st' ! i)))
         \<and> (\<forall>mid. emitted_by objs LowStockWarningSubscriber (LowStockWarningEvent mid) (published st') \<le> 1
                 \<and> emitted_by objs StockLevelOkSubscriber (StockLevelOkEvent mid) (published st') \<le> 1)"
proof -
  from assms(1) have rs: "run_script (publish objs n) None calls st = Some (r, st')"
    by (simp add: run_def)
  have "machines_kept st st'"
    using run_script_keeps [OF stable_machines_kept publish_keeps [OF stable_machines_kept] rs] .
  moreover have "one_shot objs st"
    using assms(2) by (simp add: one_shot_def emitted_by_def)
  then have "one_shot objs st'"
    using run_script_one_shot [OF publish_one_shot _ _ rs] by (simp add: bystander_def)
  then have "emitted_by objs LowStockWarningSubscriber (LowStockWarningEvent mid) (published st') \<le> 1
             \<and> emitted_by objs StockLevelOkSubscriber (StockLevelOkEvent mid) (published st') \<le> 1" for mid
    unfolding one_shot_def
    by (metis (full_types) le_trans zero_le_one order_refl)
  ultimately show ?thesis
    unfolding machines_kept_def by blast
qed

text \<open>
  One machine, with the notification subscribers receiving Sale and Refill events: the
  stock level goes 10, 2, 7, 1, 6. The sale subscriber warns at both drops below 3, the
  latched subscribers publish once each. From the state after the first sale, with the
  low-stock latch set, a refill and a sale leave that latch set.
\<close>

theorem latches_never_reset_witness:
  "published notifying_state = []
   \<and> \<not> Option.is_none (run program_objs (Suc (Suc 0))
          [Publish (MachineSaleEvent 8 ''001''), Publish (MachineRefillEvent 5 ''001''),
           Publish (MachineSaleEvent 6 ''001''), Publish (MachineRefillEvent 5 ''001'')] notifying_state)
   \<and> map stockLevel (machines (snd (the (run program_objs (Suc (Suc 0))
          [Publish (MachineSaleEvent 8 ''001''), Publish (MachineRefillEvent 5 ''001''),
           Publish (MachineSaleEvent 6 ''001''), Publish (MachineRefillEvent 5 ''001'')] notifying_state)))) = [6]
   \<and> emitted_by program_objs MachineSaleSubscriber (LowStockWarningEvent ''001'')
        (published (snd (the (run program_objs (Suc (Suc 0))
          [Publish (MachineSaleEvent 8 ''001''), Publish (MachineRefillEvent 5 ''001''),
           Publish (MachineSaleEvent 6 ''001''), Publish (MachineRefillEvent 5 ''001'')] notifying_state)))) = 2
   \<and> emitted_by program_objs LowStockWarningSubscriber (LowStockWarningEvent ''001'')
        (published (snd (the (run program_objs (Suc (Suc 0))
          [Publish (MachineSaleEvent 8 ''001''), Publish (MachineRefillEvent 5 ''001''),
           Publish (MachineSaleEvent 6 ''001''), Publish (MachineRefillEvent 5 ''001'')] notifying_state)))) \<le> 1
   \<and> emitted_by program_objs StockLevelOkSubscriber (StockLevelOkEvent ''001'')
        (published (snd (the (run program_objs (Suc (Suc 0))
          [Publish (MachineSaleEvent 8 ''001''), Publish (MachineRefillEvent 5 ''001''),
           Publish (MachineSaleEvent 6 ''001''), Publish (MachineRefillEvent 5 ''001'')] notifying_state)))) \<le> 1
   \<and> lowStockWarningFired (machines (warned_state\<lparr>published := []\<rparr>) ! 0)
   \<and> lowStockWarningFired (machines (snd (the (run program_objs (Suc (Suc 0))
          [Publish (MachineRefillEvent 5 ''001''), Publish (MachineSaleEvent 6 ''001'')]
          (warned_state\<lparr>published := []\<rparr>)))) ! 0)"
proof -
  define out where "out = run program_objs (Suc (Suc 0))
          [Publish (MachineSaleEvent 8 ''001''), Publish (MachineRefillEvent 5 ''001''),
           Publish (MachineSaleEvent 6 ''001''), Publish (MachineRefillEvent 5 ''001'')] notifying_state"
  define out2 where "out2 = run program_objs (Suc (Suc 0))
          [Publish (MachineRefillEvent 5 ''001''), Publish (MachineSaleEvent 6 ''001'')]
          (warned_state\<lparr>published := []\<rparr>)"
  have p: "published notifying_state = []"
    by (simp add: notifying_state_def program_defs)
  have some: "\<not> Option.is_none out"
    unfolding out_def by (simp add: notifying_state_def program_defs handler_defs upt_rec)
  then have ret: "out = Some (fst (the out), snd (the out))" by (rule returned)
  have stock: "map stockLevel (machines (snd (the out))) = [6]"
    unfolding out_def by (simp add: notifying_state_def program_defs handler_defs upt_rec)
  have two: "emitted_by program_objs MachineSaleSubscriber (LowStockWarningEvent ''001'')
               (published (snd (the out))) = 2"
    unfolding out_def by (simp add: emitted_by_def notifying_state_def program_defs handler_defs upt_rec)
  have ws: "machines (warned_state\<lparr>published := []\<rparr>)
              = [\<lparr>stockLevel = 2, id' = ''001'', lowStockWarningFired = True, stockLevelOkFired = False\<rparr>]"
    by (simp add: warned_state_def notifying_state_def program_defs handler_defs upt_rec)
  have "\<not> Option.is_none out2"
    unfolding out2_def
    by (simp add: warned_state_def notifying_state_def program_defs handler_defs upt_rec)
  then have ret2: "out2 = Some (fst (the out2), snd (the out2))" by (rule returned)
  have counts: "emitted_by program_objs LowStockWarningSubscriber (LowStockWarningEvent ''001'')
                  (published (snd (the out))) \<le> 1
                \<and> emitted_by program_objs StockLevelOkSubscriber (StockLevelOkEvent ''001'')
                  (published (snd (the out))) \<le> 1"
    using latches_never_reset [OF ret [unfolded out_def] p] unfolding out_def by blast
  have "lowStockWarningFired (machines (warned_state\<lparr>published := []\<rparr>) ! 0)
        \<longrightarrow> lowStockWarningFired (machines (snd (the out2)) ! 0)"
    using latches_never_reset [OF ret2 [unfolded out2_def]] ws unfolding out2_def by simp
  with ws have kept: "lowStockWarningFired (machines (snd (the out2)) ! 0)" by simp
  from p some stock two counts ws kept show ?thesis
    unfolding out_def out2_def by simp
qed

end
